theory Spec2Isabelle
  imports Main "HOL-Library.Word" "HOL-Library.Sublist"
begin

unbundle bit_operations_syntax

text \<open>
  A model of the SSD1680 e-paper driver \<^verbatim>\<open>components/ssd1680_epaper/ssd1680_epaper.cpp\<close>.
  Each method of \<^verbatim>\<open>SSD1680EPaper\<close> is a function on the driver's state. The private
  methods of the source end in an underscore, which a name here cannot: \<^verbatim>\<open>command_\<close> is
  \<open>command\<close>, \<^verbatim>\<open>display_frame_\<close> is \<open>display_frame\<close>, and so on; \<^verbatim>\<open>setup()\<close> is
  \<open>setup_display\<close>.
\<close>

section \<open>Panel geometry\<close>

text \<open>
  The driver \<^verbatim>\<open>ssd1680_epaper.cpp\<close> fixes the panel at 128 by 296 pixels, one bit per
  pixel. \<^verbatim>\<open>WIDTH\<close> and \<^verbatim>\<open>HEIGHT\<close> are \<^verbatim>\<open>uint16_t\<close>, their product is formed
  in \<^verbatim>\<open>int\<close> (37888, no overflow) and \<^verbatim>\<open>ALLSCREEN_BYTES\<close> is a \<^verbatim>\<open>uint32_t\<close>.
\<close>

type_synonym u8 = "8 word"
type_synonym u32 = "32 word"

definition WIDTH :: nat where
  "WIDTH = 128"

definition HEIGHT :: nat where
  "HEIGHT = 296"

definition ALLSCREEN_BYTES :: nat where
  "ALLSCREEN_BYTES = (WIDTH * HEIGHT) div 8"

text \<open>
  Modelled from the spec: \<^verbatim>\<open>get_width_internal()\<close> and \<^verbatim>\<open>get_height_internal()\<close> are
  declared in the header \<^verbatim>\<open>ssd1680_epaper.h\<close>, which is not among the sources. The
  specification fixes the logical dimensions (width = 128, height = 296), the values of
  \<^verbatim>\<open>WIDTH\<close> and \<^verbatim>\<open>HEIGHT\<close>.
\<close>

definition get_width_internal :: int where
  "get_width_internal = int WIDTH"

definition get_height_internal :: int where
  "get_height_internal = int HEIGHT"

section \<open>Events and driver state\<close>

text \<open>
  Everything the driver does to its collaborators (pins, the SPI bus, the clock, the
  watchdog) is recorded as an event, in the order of the calls. Informational and debug
  log output is not recorded; warnings and errors are.
\<close>

datatype pin = DC_PIN | RESET_PIN | BUSY_PIN

datatype gpio_mode = GPIO_MODE_INPUT | GPIO_MODE_OUTPUT

datatype log_level = LOG_WARN | LOG_ERROR

datatype event =
    GpioConfig nat gpio_mode
  | GpioSetLevel nat bool
  | GpioGetLevel nat
  | PinSetup pin
  | DcWrite bool
  | ResetWrite bool
  | BusyRead bool
  | SpiSetup
  | SpiEnable
  | SpiWriteByte u8
  | SpiWriteArray "u8 list"
  | SpiDisable
  | Delay nat
  | FeedWdt
  | Log log_level string

datatype error = NullPointerDereference | BufferOutOfBounds

text \<open>
  \<open>reset_pin\<close> and \<open>busy_pin\<close> say whether \<^verbatim>\<open>reset_pin_\<close> and \<^verbatim>\<open>busy_pin_\<close> are
  non-null. The busy line is an input: \<open>busy_in s k\<close> is the level the \<open>k\<close>-th
  \<^verbatim>\<open>digital_read()\<close> of the line returns, an arbitrary function, and \<open>busy_reads\<close>
  counts the reads made so far. \<open>clock\<close> is the value of \<^verbatim>\<open>millis()\<close>, a
  \<^verbatim>\<open>uint32_t\<close> that wraps around; \<^verbatim>\<open>delay(n)\<close> advances it by \<open>n\<close> and no other
  call takes time.
\<close>

record driver =
  reset_pin :: bool
  busy_pin :: bool
  busy_in :: "nat \<Rightarrow> bool"
  busy_reads :: nat
  clock :: u32
  buffer :: "u8 list"
  initialized :: bool
  trace :: "event list"

definition new_driver :: "bool \<Rightarrow> bool \<Rightarrow> (nat \<Rightarrow> bool) \<Rightarrow> u32 \<Rightarrow> driver" where
  "new_driver has_reset has_busy busy t0 =
     \<lparr>reset_pin = has_reset, busy_pin = has_busy, busy_in = busy, busy_reads = 0,
      clock = t0, buffer = [], initialized = False, trace = []\<rparr>"

definition stuck_busy :: "nat \<Rightarrow> bool" where
  "stuck_busy k = True"

definition never_busy :: "nat \<Rightarrow> bool" where
  "never_busy k = False"

definition emit :: "event \<Rightarrow> driver \<Rightarrow> driver" where
  "emit e s = s\<lparr>trace := trace s @ [e]\<rparr>"

definition delay :: "nat \<Rightarrow> driver \<Rightarrow> driver" where
  "delay ms s = emit (Delay ms) (s\<lparr>clock := clock s + of_nat ms\<rparr>)"

definition millis :: "driver \<Rightarrow> u32" where
  "millis s = clock s"

definition feed_wdt :: "driver \<Rightarrow> driver" where
  "feed_wdt s = emit FeedWdt s"

text \<open>\<^verbatim>\<open>busy_pin_->digital_read()\<close>: the level read, and the state after the read.\<close>

definition busy_digital_read :: "driver \<Rightarrow> bool \<times> driver" where
  "busy_digital_read s =
     (busy_in s (busy_reads s),
      emit (BusyRead (busy_in s (busy_reads s))) (s\<lparr>busy_reads := Suc (busy_reads s)\<rparr>))"

text \<open>
  \<^verbatim>\<open>if (busy_pin_ != nullptr) ESP_LOGI(TAG, "...", busy_pin_->digital_read())\<close>: the log
  line itself is not recorded, the read of the line is.
\<close>

definition log_busy :: "driver \<Rightarrow> driver" where
  "log_busy s = (if busy_pin s then snd (busy_digital_read s) else s)"

text \<open>A block of statements, executed in order.\<close>

fun run :: "(driver \<Rightarrow> driver) list \<Rightarrow> driver \<Rightarrow> driver" where
  "run [] s = s"
| "run (step # steps) s = run steps (step s)"

section \<open>Byte transport\<close>

definition command :: "u8 \<Rightarrow> driver \<Rightarrow> driver" where
  "command cmd =
     run [emit (DcWrite False), emit SpiEnable, emit (SpiWriteByte cmd), emit SpiDisable]"

definition data :: "u8 \<Rightarrow> driver \<Rightarrow> driver" where
  "data d =
     run [emit (DcWrite True), emit SpiEnable, emit (SpiWriteByte d), emit SpiDisable]"

definition send_data :: "u8 list \<Rightarrow> driver \<Rightarrow> driver" where
  "send_data bytes =
     run [emit (DcWrite True), emit SpiEnable, emit (SpiWriteArray bytes), emit SpiDisable]"

section \<open>Reset and busy handshake\<close>

definition hw_reset :: "driver \<Rightarrow> driver" where
  "hw_reset s =
     (if \<not> reset_pin s then emit (Log LOG_WARN ''No reset pin configured!'') s
      else run [emit (ResetWrite True), delay 10,
                emit (ResetWrite False), delay 10,
                emit (ResetWrite True), delay 10] s)"

text \<open>
  The polling loop of \<^verbatim>\<open>wait_until_idle_\<close>. On a timeout the source returns from the
  function at once; when the line reads idle the loop ends and the trailing
  \<^verbatim>\<open>delay(10)\<close> runs.
\<close>

function wait_until_idle_loop :: "u32 \<Rightarrow> driver \<Rightarrow> driver" where
  "wait_until_idle_loop start s =
     (if fst (busy_digital_read s) then
        (if millis (snd (busy_digital_read s)) - start > 10000
         then emit (Log LOG_ERROR ''Timeout waiting for display (busy pin stuck HIGH)'')
                (snd (busy_digital_read s))
         else wait_until_idle_loop start (feed_wdt (delay 10 (snd (busy_digital_read s)))))
      else delay 10 (snd (busy_digital_read s)))"
  by pat_completeness auto
termination
proof (relation "measure (\<lambda>(start, s). 10011 - unat (clock s - start))")
  show "wf (measure (\<lambda>(start, s). 10011 - unat (clock s - start)))"
    by simp
next
  fix start :: u32 and s :: driver
  assume "\<not> 10000 < millis (snd (busy_digital_read s)) - start"
  then have small: "unat (clock s - start) \<le> 10000"
    by (simp add: millis_def busy_digital_read_def emit_def word_less_nat_alt not_less)
  have "unat ((clock s - start) + 10) = unat (clock s - start) + 10"
    using small by (simp add: unat_word_ariths)
  moreover have "clock s + 10 - start = (clock s - start) + 10"
    by simp
  ultimately have "unat (clock s + 10 - start) = unat (clock s - start) + 10"
    by (simp only:)
  then show "((start, feed_wdt (delay 10 (snd (busy_digital_read s)))), (start, s))
      \<in> measure (\<lambda>(start, s). 10011 - unat (clock s - start))"
    using small by (simp add: feed_wdt_def delay_def busy_digital_read_def emit_def)
qed

declare wait_until_idle_loop.simps [simp del]

definition wait_until_idle :: "driver \<Rightarrow> driver" where
  "wait_until_idle s =
     (if \<not> busy_pin s then delay 100 s
      else wait_until_idle_loop (millis s) (snd (busy_digital_read s)))"

section \<open>Controller state machine\<close>

text \<open>
  The wait after the software reset in \<^verbatim>\<open>init_display_\<close>:
  \<^verbatim>\<open>while (busy_pin_ != nullptr && busy_pin_->digital_read())\<close> with a 2 s limit that
  breaks out of the loop.
\<close>

function sw_reset_loop :: "u32 \<Rightarrow> driver \<Rightarrow> driver" where
  "sw_reset_loop start s =
     (if \<not> busy_pin s then s
      else if fst (busy_digital_read s) then
        (if millis (snd (busy_digital_read s)) - start > 2000
         then emit (Log LOG_ERROR ''SW Reset timeout after 2s - continuing anyway'')
                (snd (busy_digital_read s))
         else sw_reset_loop start (feed_wdt (delay 10 (snd (busy_digital_read s)))))
      else snd (busy_digital_read s))"
  by pat_completeness auto
termination
proof (relation "measure (\<lambda>(start, s). 2011 - unat (clock s - start))")
  show "wf (measure (\<lambda>(start, s). 2011 - unat (clock s - start)))"
    by simp
next
  fix start :: u32 and s :: driver
  assume "\<not> 2000 < millis (snd (busy_digital_read s)) - start"
  then have small: "unat (clock s - start) \<le> 2000"
    by (simp add: millis_def busy_digital_read_def emit_def word_less_nat_alt not_less)
  have "unat ((clock s - start) + 10) = unat (clock s - start) + 10"
    using small by (simp add: unat_word_ariths)
  moreover have "clock s + 10 - start = (clock s - start) + 10"
    by simp
  ultimately have "unat (clock s + 10 - start) = unat (clock s - start) + 10"
    by (simp only:)
  then show "((start, feed_wdt (delay 10 (snd (busy_digital_read s)))), (start, s))
      \<in> measure (\<lambda>(start, s). 2011 - unat (clock s - start))"
    using small by (simp add: feed_wdt_def delay_def busy_digital_read_def emit_def)
qed

declare sw_reset_loop.simps [simp del]

definition init_display :: "driver \<Rightarrow> driver" where
  "init_display =
     run [log_busy,
          (\<lambda>s. if reset_pin s
                then run [emit (ResetWrite True), delay 10, log_busy,
                          emit (ResetWrite False), delay 10, log_busy,
                          emit (ResetWrite True), delay 10, log_busy] s
                else s),
          delay 100,
          log_busy,
          command 0x12,
          delay 20,
          log_busy,
          (\<lambda>s. sw_reset_loop (millis s) s),
          command 0x01, data 0x27, data 0x01, data 0x00,
          command 0x11, data 0x03,
          command 0x44, data 0x00, data 0x0F,
          command 0x45, data 0x00, data 0x00, data 0x27, data 0x01,
          command 0x3C, data 0x05,
          command 0x18, data 0x80,
          command 0x4E, data 0x00,
          command 0x4F, data 0x00, data 0x00,
          log_busy]"

text \<open>
  The wait after the refresh trigger in \<^verbatim>\<open>full_update_\<close>: a 5 s limit, polled every
  100 ms; the timeout is logged at debug level only.
\<close>

function full_update_loop :: "u32 \<Rightarrow> driver \<Rightarrow> driver" where
  "full_update_loop start s =
     (if \<not> busy_pin s then s
      else if fst (busy_digital_read s) then
        (if millis (snd (busy_digital_read s)) - start > 5000
         then snd (busy_digital_read s)
         else full_update_loop start (feed_wdt (delay 100 (snd (busy_digital_read s)))))
      else snd (busy_digital_read s))"
  by pat_completeness auto
termination
proof (relation "measure (\<lambda>(start, s). 5101 - unat (clock s - start))")
  show "wf (measure (\<lambda>(start, s). 5101 - unat (clock s - start)))"
    by simp
next
  fix start :: u32 and s :: driver
  assume "\<not> 5000 < millis (snd (busy_digital_read s)) - start"
  then have small: "unat (clock s - start) \<le> 5000"
    by (simp add: millis_def busy_digital_read_def emit_def word_less_nat_alt not_less)
  have "unat ((clock s - start) + 100) = unat (clock s - start) + 100"
    using small by (simp add: unat_word_ariths)
  moreover have "clock s + 100 - start = (clock s - start) + 100"
    by simp
  ultimately have "unat (clock s + 100 - start) = unat (clock s - start) + 100"
    by (simp only:)
  then show "((start, feed_wdt (delay 100 (snd (busy_digital_read s)))), (start, s))
      \<in> measure (\<lambda>(start, s). 5101 - unat (clock s - start))"
    using small by (simp add: feed_wdt_def delay_def busy_digital_read_def emit_def)
qed

declare full_update_loop.simps [simp del]

definition full_update :: "driver \<Rightarrow> driver" where
  "full_update =
     run [command 0x22, data 0xF7, command 0x20,
          (\<lambda>s. full_update_loop (millis s) s)]"

text \<open>
  The two RAM loops of \<^verbatim>\<open>display_frame_\<close>:
  \<^verbatim>\<open>for (uint32_t i = 0; i < ALLSCREEN_BYTES; i++) data_(~buffer_[i])\<close> and the same
  loop sending \<^verbatim>\<open>0x00\<close>.
\<close>

function write_bw_ram :: "nat \<Rightarrow> driver \<Rightarrow> driver" where
  "write_bw_ram i s =
     (if i < ALLSCREEN_BYTES then write_bw_ram (i + 1) (data (NOT (buffer s ! i)) s) else s)"
  by pat_completeness auto
termination
  by (relation "measure (\<lambda>(i, s). ALLSCREEN_BYTES - i)") auto

declare write_bw_ram.simps [simp del]

function write_red_ram :: "nat \<Rightarrow> driver \<Rightarrow> driver" where
  "write_red_ram i s =
     (if i < ALLSCREEN_BYTES then write_red_ram (i + 1) (data 0x00 s) else s)"
  by pat_completeness auto
termination
  by (relation "measure (\<lambda>(i, s). ALLSCREEN_BYTES - i)") auto

declare write_red_ram.simps [simp del]

definition display_frame :: "driver \<Rightarrow> driver" where
  "display_frame =
     run [(\<lambda>s. if reset_pin s
                then run [emit (ResetWrite False), delay 10,
                          emit (ResetWrite True), delay 10] s
                else s),
          wait_until_idle,
          command 0x12,
          delay 10,
          wait_until_idle,
          command 0x01, data 0x27, data 0x01, data 0x00,
          command 0x11, data 0x03,
          command 0x44, data 0x00, data 0x0F,
          command 0x45, data 0x00, data 0x00, data 0x27, data 0x01,
          command 0x4E, data 0x00,
          command 0x4F, data 0x00, data 0x00,
          command 0x24,
          write_bw_ram 0,
          command 0x4E, data 0x00,
          command 0x4F, data 0x00, data 0x00,
          command 0x26,
          write_red_ram 0,
          wait_until_idle,
          full_update]"

section \<open>Frame buffer\<close>

text \<open>
  C division and remainder truncate towards zero. \<^verbatim>\<open>draw_absolute_pixel_internal\<close>
  takes \<^verbatim>\<open>int\<close> coordinates; the model takes any integer, and no arithmetic is done
  on a coordinate before the bounds check has confined it to the panel.
\<close>

definition c_div :: "int \<Rightarrow> int \<Rightarrow> int" where
  "c_div a b = sgn a * sgn b * (\<bar>a\<bar> div \<bar>b\<bar>)"

definition c_mod :: "int \<Rightarrow> int \<Rightarrow> int" where
  "c_mod a b = a - b * c_div a b"

text \<open>
  A read-modify-write of \<^verbatim>\<open>buffer_[pos]\<close>. An index outside the allocation is
  undefined behaviour in the source and an error in the model.
\<close>

definition buffer_modify :: "nat \<Rightarrow> (u8 \<Rightarrow> u8) \<Rightarrow> u8 list \<Rightarrow> error + u8 list" where
  "buffer_modify pos f buf =
     (if pos < length buf then Inr (buf[pos := f (buf ! pos)]) else Inl BufferOutOfBounds)"

text \<open>
  \<open>on\<close> is the value of \<^verbatim>\<open>color.is_on()\<close>. \<^verbatim>\<open>pos\<close> is a \<^verbatim>\<open>uint32_t\<close> and
  \<^verbatim>\<open>bit\<close> a \<^verbatim>\<open>uint8_t\<close>, both converted from \<^verbatim>\<open>int\<close> expressions.
\<close>

definition draw_absolute_pixel_internal ::
    "int \<Rightarrow> int \<Rightarrow> bool \<Rightarrow> u8 list \<Rightarrow> error + u8 list" where
  "draw_absolute_pixel_internal x y on buf =
     (if x < 0 \<or> x \<ge> get_width_internal \<or> y < 0 \<or> y \<ge> get_height_internal then Inr buf
      else
        let pos = (word_of_int (y * int (WIDTH div 8) + c_div x 8) :: u32);
            bit = (word_of_int (drop_bit (nat (c_mod x 8)) (0x80 :: int)) :: u8)
        in if unat pos \<ge> ALLSCREEN_BYTES then Inr buf
           else if on then buffer_modify (unat pos) (\<lambda>b. b OR bit) buf
           else buffer_modify (unat pos) (\<lambda>b. b AND NOT bit) buf)"

text \<open>
  The addressing formula of the specification, used to read a pixel back:
  \<open>index = y * (width / 8) + x / 8\<close>, \<open>bitmask = 0x80 >> (x mod 8)\<close>.
\<close>

definition pixel_index :: "int \<Rightarrow> int \<Rightarrow> nat" where
  "pixel_index x y = nat (y * (int WIDTH div 8) + x div 8)"

definition pixel_mask :: "int \<Rightarrow> u8" where
  "pixel_mask x = drop_bit (nat (x mod 8)) (0x80 :: u8)"

definition pixel_at :: "int \<Rightarrow> int \<Rightarrow> u8 list \<Rightarrow> bool" where
  "pixel_at x y buf = (buf ! pixel_index x y AND pixel_mask x \<noteq> 0)"

section \<open>Setup and update\<close>

text \<open>
  \<^verbatim>\<open>setup()\<close>: the power rail on GPIO7, the pins, the bus, then the buffer:
  \<^verbatim>\<open>init_internal_(ALLSCREEN_BYTES)\<close> allocates it and
  \<^verbatim>\<open>memset(buffer_, 0xFF, ALLSCREEN_BYTES)\<close> fills it.
\<close>

definition setup_display :: "driver \<Rightarrow> driver" where
  "setup_display =
     run [emit (GpioConfig 7 GPIO_MODE_OUTPUT),
          emit (GpioSetLevel 7 True),
          delay 100,
          emit (PinSetup DC_PIN),
          emit (DcWrite False),
          (\<lambda>s. if reset_pin s
                then run [emit (PinSetup RESET_PIN), emit (ResetWrite True)] s
                else s),
          (\<lambda>s. if busy_pin s then emit (PinSetup BUSY_PIN) s else s),
          emit SpiSetup,
          (\<lambda>s. s\<lparr>buffer := replicate ALLSCREEN_BYTES 0xFF\<rparr>),
          (\<lambda>s. s\<lparr>initialized := False\<rparr>)]"

text \<open>
  \<^verbatim>\<open>do_update_()\<close> belongs to the display framework: it runs the user's drawing code,
  which reaches the buffer only through \<^verbatim>\<open>draw_absolute_pixel_internal\<close>. The
  drawing code is a parameter of the model: the list of pixel writes it makes.
\<close>

type_synonym draw_op = "int \<times> int \<times> bool"

fun draw_all :: "draw_op list \<Rightarrow> u8 list \<Rightarrow> error + u8 list" where
  "draw_all [] buf = Inr buf"
| "draw_all ((x, y, on) # ops) buf =
     (case draw_absolute_pixel_internal x y on buf of
        Inl e \<Rightarrow> Inl e
      | Inr buf' \<Rightarrow> draw_all ops buf')"

definition do_update :: "draw_op list \<Rightarrow> driver \<Rightarrow> error + driver" where
  "do_update ops s =
     (case draw_all ops (buffer s) of
        Inl e \<Rightarrow> Inl e
      | Inr buf' \<Rightarrow> Inr (s\<lparr>buffer := buf'\<rparr>))"

text \<open>
  The block of \<^verbatim>\<open>update()\<close> guarded by \<^verbatim>\<open>!initialized_\<close>. Its pin swap test reads
  \<^verbatim>\<open>busy_pin_->digital_read()\<close> with no null check (the read is an argument of
  \<^verbatim>\<open>ESP_LOGI\<close>, compiled in at the default log level), then reconfigures GPIO47,
  runs \<^verbatim>\<open>init_display_()\<close> and sets the flag. With \<^verbatim>\<open>busy_pin_ == nullptr\<close> the
  read is a null pointer dereference: an error of the model.
\<close>

definition first_update_steps :: "driver \<Rightarrow> driver" where
  "first_update_steps =
     run [(\<lambda>s. snd (busy_digital_read s)),
          emit (GpioConfig 47 GPIO_MODE_INPUT),
          emit (GpioGetLevel 47),
          emit (GpioConfig 47 GPIO_MODE_OUTPUT),
          emit (GpioSetLevel 47 True),
          init_display,
          (\<lambda>s. s\<lparr>initialized := True\<rparr>)]"

definition first_update_init :: "driver \<Rightarrow> error + driver" where
  "first_update_init s =
     (if \<not> busy_pin s then Inl NullPointerDereference else Inr (first_update_steps s))"

definition update :: "draw_op list \<Rightarrow> driver \<Rightarrow> error + driver" where
  "update ops s =
     (case (if \<not> initialized s then first_update_init s else Inr s) of
        Inl e \<Rightarrow> Inl e
      | Inr s1 \<Rightarrow>
          (case do_update ops s1 of
             Inl e \<Rightarrow> Inl e
           | Inr s2 \<Rightarrow> Inr (display_frame s2)))"

text \<open>Successive calls of \<^verbatim>\<open>update()\<close>, each with its own drawing code.\<close>

fun updates :: "draw_op list list \<Rightarrow> driver \<Rightarrow> error + driver" where
  "updates [] s = Inr s"
| "updates (ops # rest) s =
     (case update ops s of
        Inl e \<Rightarrow> Inl e
      | Inr s' \<Rightarrow> updates rest s')"

section \<open>Observing a trace\<close>

text \<open>
  The events a step records when it starts from the state \<open>s\<close>: what it appends to
  the trace.
\<close>

definition capture :: "(driver \<Rightarrow> driver) \<Rightarrow> driver \<Rightarrow> event list" where
  "capture step s = drop (length (trace s)) (trace (step s))"

text \<open>
  The events by which the driver acts on the hardware, as opposed to reading an input,
  sleeping, feeding the watchdog or logging.
\<close>

fun is_output :: "event \<Rightarrow> bool" where
  "is_output (GpioGetLevel n) = False"
| "is_output (BusyRead b) = False"
| "is_output (Delay ms) = False"
| "is_output FeedWdt = False"
| "is_output (Log l m) = False"
| "is_output e = True"

definition outputs :: "event list \<Rightarrow> event list" where
  "outputs es = filter is_output es"

text \<open>
  \<open>quiet_step s s'\<close>: the driver went from \<open>s\<close> to \<open>s'\<close> without acting on the
  hardware and without touching its configuration, its buffer or its flag. The clock and
  the number of reads of the busy line may have advanced.
\<close>

definition quiet_step :: "driver \<Rightarrow> driver \<Rightarrow> bool" where
  "quiet_step s s' \<longleftrightarrow>
     reset_pin s' = reset_pin s \<and> busy_pin s' = busy_pin s \<and> busy_in s' = busy_in s \<and>
     buffer s' = buffer s \<and> initialized s' = initialized s \<and>
     prefix (trace s) (trace s') \<and>
     outputs (drop (length (trace s)) (trace s')) = []"

text \<open>
  A step is steady when it leaves the configuration, the buffer and the flag alone and
  only appends to the trace.
\<close>

definition steady :: "(driver \<Rightarrow> driver) \<Rightarrow> bool" where
  "steady f \<longleftrightarrow>
     (\<forall>s. reset_pin (f s) = reset_pin s \<and> busy_pin (f s) = busy_pin s \<and>
          busy_in (f s) = busy_in s \<and> buffer (f s) = buffer s \<and>
          initialized (f s) = initialized s \<and> prefix (trace s) (trace (f s)))"

text \<open>The events of one \<^verbatim>\<open>command_\<close> call and of one \<^verbatim>\<open>data_\<close> call.\<close>

definition command_events :: "u8 \<Rightarrow> event list" where
  "command_events cmd = [DcWrite False, SpiEnable, SpiWriteByte cmd, SpiDisable]"

definition data_events :: "u8 \<Rightarrow> event list" where
  "data_events d = [DcWrite True, SpiEnable, SpiWriteByte d, SpiDisable]"

text \<open>
  The bus events of the one-time configuration, of the condensed configuration that
  opens every write phase, and of a whole write-and-refresh phase for the buffer
  contents \<open>buf\<close>.
\<close>

definition config_bus_events :: "event list" where
  "config_bus_events =
     command_events 0x12 @
     command_events 0x01 @ data_events 0x27 @ data_events 0x01 @ data_events 0x00 @
     command_events 0x11 @ data_events 0x03 @
     command_events 0x44 @ data_events 0x00 @ data_events 0x0F @
     command_events 0x45 @ data_events 0x00 @ data_events 0x00 @ data_events 0x27 @
       data_events 0x01 @
     command_events 0x3C @ data_events 0x05 @
     command_events 0x18 @ data_events 0x80 @
     command_events 0x4E @ data_events 0x00 @
     command_events 0x4F @ data_events 0x00 @ data_events 0x00"

definition frame_config_events :: "event list" where
  "frame_config_events =
     command_events 0x12 @
     command_events 0x01 @ data_events 0x27 @ data_events 0x01 @ data_events 0x00 @
     command_events 0x11 @ data_events 0x03 @
     command_events 0x44 @ data_events 0x00 @ data_events 0x0F @
     command_events 0x45 @ data_events 0x00 @ data_events 0x00 @ data_events 0x27 @
       data_events 0x01 @
     command_events 0x4E @ data_events 0x00 @
     command_events 0x4F @ data_events 0x00 @ data_events 0x00"

definition frame_bus_events :: "u8 list \<Rightarrow> event list" where
  "frame_bus_events buf =
     frame_config_events @
     command_events 0x24 @ concat (map data_events (map NOT buf)) @
     command_events 0x4E @ data_events 0x00 @
     command_events 0x4F @ data_events 0x00 @ data_events 0x00 @
     command_events 0x26 @ concat (map data_events (replicate ALLSCREEN_BYTES 0x00)) @
     command_events 0x22 @ data_events 0xF7 @ command_events 0x20"

text \<open>The (opcode, payload) pairs of one write-and-refresh phase.\<close>

definition frame_pairs :: "u8 list \<Rightarrow> (u8 \<times> u8 list) list" where
  "frame_pairs buf =
     [(0x12, []),
      (0x01, [0x27, 0x01, 0x00]),
      (0x11, [0x03]),
      (0x44, [0x00, 0x0F]),
      (0x45, [0x00, 0x00, 0x27, 0x01]),
      (0x4E, [0x00]),
      (0x4F, [0x00, 0x00]),
      (0x24, map NOT buf),
      (0x4E, [0x00]),
      (0x4F, [0x00, 0x00]),
      (0x26, replicate ALLSCREEN_BYTES 0x00),
      (0x22, [0xF7]),
      (0x20, [])]"

text \<open>
  The first-update block without its last assignment, and what the driver does to the
  hardware in that block and in one write phase (\<open>r\<close>: a reset line is configured).
\<close>

definition pin_swap_and_init :: "driver \<Rightarrow> driver" where
  "pin_swap_and_init =
     run [(\<lambda>s. snd (busy_digital_read s)),
          emit (GpioConfig 47 GPIO_MODE_INPUT),
          emit (GpioGetLevel 47),
          emit (GpioConfig 47 GPIO_MODE_OUTPUT),
          emit (GpioSetLevel 47 True),
          init_display]"

definition first_outputs :: "bool \<Rightarrow> event list" where
  "first_outputs r =
     [GpioConfig 47 GPIO_MODE_INPUT, GpioConfig 47 GPIO_MODE_OUTPUT, GpioSetLevel 47 True] @
     (if r then [ResetWrite True, ResetWrite False, ResetWrite True] else []) @
     config_bus_events"

definition frame_outputs :: "bool \<Rightarrow> u8 list \<Rightarrow> event list" where
  "frame_outputs r buf =
     (if r then [ResetWrite False, ResetWrite True] else []) @ frame_bus_events buf"

text \<open>
  The bytes that cross the bus, each with the level of the command/data selector line
  at the time (\<open>False\<close>: command, \<open>True\<close>: data).
\<close>

fun bus_bytes :: "bool \<Rightarrow> event list \<Rightarrow> (bool \<times> u8) list" where
  "bus_bytes dc [] = []"
| "bus_bytes dc (DcWrite b # es) = bus_bytes b es"
| "bus_bytes dc (SpiWriteByte x # es) = (dc, x) # bus_bytes dc es"
| "bus_bytes dc (SpiWriteArray xs # es) = map (Pair dc) xs @ bus_bytes dc es"
| "bus_bytes dc (e # es) = bus_bytes dc es"

text \<open>
  Grouping into (opcode, payload) pairs: a command byte opens a pair, the data bytes
  up to the next command byte are its payload.
\<close>

function group_pairs :: "(bool \<times> u8) list \<Rightarrow> (u8 \<times> u8 list) list" where
  "group_pairs [] = []"
| "group_pairs ((dc, b) # rest) =
     (if dc then group_pairs rest
      else (b, map snd (takeWhile fst rest)) # group_pairs (dropWhile fst rest))"
  by pat_completeness auto
termination
  by (relation "measure length") (auto simp: less_Suc_eq_le length_dropWhile_le)

definition bus_pairs :: "event list \<Rightarrow> (u8 \<times> u8 list) list" where
  "bus_pairs es = group_pairs (bus_bytes False es)"

text \<open>
  The scoped bus transactions: for each enable/disable pair, the selector level and
  the bytes written inside it.
\<close>

fun transactions :: "bool \<Rightarrow> u8 list option \<Rightarrow> event list \<Rightarrow> (bool \<times> u8 list) list" where
  "transactions dc cur [] = []"
| "transactions dc cur (DcWrite b # es) = transactions b cur es"
| "transactions dc cur (SpiEnable # es) = transactions dc (Some []) es"
| "transactions dc (Some bs) (SpiWriteByte x # es) = transactions dc (Some (bs @ [x])) es"
| "transactions dc (Some bs) (SpiWriteArray xs # es) = transactions dc (Some (bs @ xs)) es"
| "transactions dc (Some bs) (SpiDisable # es) = (dc, bs) # transactions dc None es"
| "transactions dc cur (e # es) = transactions dc cur es"

text \<open>The levels written to the reset line, in order.\<close>

fun reset_writes :: "event list \<Rightarrow> bool list" where
  "reset_writes [] = []"
| "reset_writes (ResetWrite b # es) = b # reset_writes es"
| "reset_writes (e # es) = reset_writes es"

text \<open>The one-time configuration sequence as documented.\<close>

definition one_time_config :: "(u8 \<times> u8 list) list" where
  "one_time_config =
     [(0x12, []),
      (0x01, [0x27, 0x01, 0x00]),
      (0x11, [0x03]),
      (0x44, [0x00, 0x0F]),
      (0x45, [0x00, 0x00, 0x27, 0x01]),
      (0x3C, [0x05]),
      (0x18, [0x80]),
      (0x4E, [0x00]),
      (0x4F, [0x00, 0x00])]"

section \<open>The frame buffer: pixel writes\<close>

lemma ALLSCREEN_BYTES_eq: "ALLSCREEN_BYTES = 4736"
  by (simp add: ALLSCREEN_BYTES_def WIDTH_def HEIGHT_def)

lemma c_div_nonneg: "0 \<le> x \<Longrightarrow> c_div x 8 = x div 8"
  by (cases "x = 0") (simp_all add: c_div_def)

lemma c_mod_nonneg: "0 \<le> x \<Longrightarrow> c_mod x 8 = x mod 8"
  by (simp add: c_mod_def c_div_nonneg minus_mult_div_eq_mod)

lemma pixel_index_bound:
  assumes "0 \<le> x" "x < 128" "0 \<le> y" "y < 296"
  shows "pixel_index x y < ALLSCREEN_BYTES"
proof -
  have "x div 8 \<le> 15" using assms by simp
  moreover have "y * 16 \<le> 295 * 16" using assms by simp
  moreover have "0 \<le> y * 16 + x div 8" using assms by simp
  ultimately show ?thesis
    by (simp add: pixel_index_def WIDTH_def ALLSCREEN_BYTES_eq)
qed

lemma pos_in_range:
  assumes "0 \<le> x" "x < 128" "0 \<le> y" "y < 296"
  shows "unat (word_of_int (y * int (WIDTH div 8) + c_div x 8) :: u32) = pixel_index x y"
proof -
  have b: "pixel_index x y < 4736"
    using pixel_index_bound [OF assms] by (simp add: ALLSCREEN_BYTES_eq)
  have nn: "0 \<le> y * 16 + x div 8" using assms by simp
  have "y * int (WIDTH div 8) + c_div x 8 = int (pixel_index x y)"
    using assms nn by (simp add: pixel_index_def WIDTH_def c_div_nonneg)
  then have "(word_of_int (y * int (WIDTH div 8) + c_div x 8) :: u32) = of_nat (pixel_index x y)"
    by simp
  then show ?thesis using b by (simp add: unat_of_nat)
qed

lemma mod8_cases:
  "0 \<le> (x::int) \<Longrightarrow> nat (x mod 8) \<in> {0, 1, 2, 3, 4, 5, 6, 7}"
proof -
  assume "0 \<le> x"
  have "x mod 8 < 8" "0 \<le> x mod 8" by simp_all
  then have "nat (x mod 8) < 8" by simp
  then show ?thesis by (auto simp: less_Suc_eq numeral_eq_Suc)
qed

lemma bit_in_range:
  assumes "0 \<le> x"
  shows "(word_of_int (drop_bit (nat (c_mod x 8)) (0x80 :: int)) :: u8) = pixel_mask x"
  using mod8_cases [OF assms] by (auto simp: c_mod_nonneg [OF assms] pixel_mask_def drop_bit_eq_div)

lemma draw_in_range:
  assumes "0 \<le> x" "x < 128" "0 \<le> y" "y < 296" "length buf = ALLSCREEN_BYTES"
  shows "draw_absolute_pixel_internal x y on buf =
    Inr (buf[pixel_index x y :=
      (if on then buf ! pixel_index x y OR pixel_mask x
       else buf ! pixel_index x y AND NOT (pixel_mask x))])"
proof -
  have guard: "\<not> (x < 0 \<or> x \<ge> get_width_internal \<or> y < 0 \<or> y \<ge> get_height_internal)"
    using assms by (simp add: get_width_internal_def get_height_internal_def WIDTH_def HEIGHT_def)
  have pos: "unat (word_of_int (y * int (WIDTH div 8) + c_div x 8) :: u32) = pixel_index x y"
    by (rule pos_in_range [OF assms(1-4)])
  have mask: "(word_of_int (drop_bit (nat (c_mod x 8)) (0x80 :: int)) :: u8) = pixel_mask x"
    by (rule bit_in_range [OF assms(1)])
  have less: "pixel_index x y < length buf" "\<not> ALLSCREEN_BYTES \<le> pixel_index x y"
    using pixel_index_bound [OF assms(1-4)] assms(5) by simp_all
  show ?thesis
    unfolding draw_absolute_pixel_internal_def Let_def pos mask buffer_modify_def
    using guard less by simp
qed

lemma draw_out_of_range:
  assumes "x < 0 \<or> 128 \<le> x \<or> y < 0 \<or> 296 \<le> y"
  shows "draw_absolute_pixel_internal x y on buf = Inr buf"
  using assms
  by (auto simp add: draw_absolute_pixel_internal_def get_width_internal_def get_height_internal_def
     WIDTH_def HEIGHT_def)

lemma pixel_mask_pow: "0 \<le> x \<Longrightarrow> pixel_mask x = 2 ^ (7 - nat (x mod 8))"
  using mod8_cases [of x] by (auto simp: pixel_mask_def drop_bit_eq_div)

lemma bit_pixel_mask: "0 \<le> x \<Longrightarrow> bit (pixel_mask x) k \<longleftrightarrow> k = 7 - nat (x mod 8)"
  using mod8_cases [of x] by (auto simp: pixel_mask_pow bit_exp_iff)

lemma pixel_mask_nonzero: "0 \<le> x \<Longrightarrow> pixel_mask x \<noteq> 0"
proof
  assume "0 \<le> x" "pixel_mask x = 0"
  then have "\<not> bit (pixel_mask x) (7 - nat (x mod 8))" by simp
  then show False using bit_pixel_mask [OF \<open>0 \<le> x\<close>] by simp
qed

lemma set_mask_readback: "(b OR m) AND m = (m :: u8)"
  by (auto simp: bit_eq_iff bit_simps)

lemma clear_mask_readback: "(b AND NOT m) AND m = (0 :: u8)"
  by (simp add: bit_eq_iff bit_simps)

lemma draw_origin_scenarios:
  assumes "length buf = ALLSCREEN_BYTES"
  shows "draw_absolute_pixel_internal 0 0 True buf = Inr (buf[0 := buf ! 0 OR 0x80])"
    and "draw_absolute_pixel_internal 7 0 True buf = Inr (buf[0 := buf ! 0 OR 0x01])"
    and "draw_absolute_pixel_internal 8 0 True buf = Inr (buf[1 := buf ! 1 OR 0x80])"
  using assms by (simp_all add: draw_in_range pixel_index_def pixel_mask_def WIDTH_def)

text \<open>
  Claim C4. On a buffer of the full length, a pixel write at in-bounds coordinates
  (\<open>0 \<le> x < 128\<close>, \<open>0 \<le> y < 296\<close>) changes the byte at index
  \<open>y * (width / 8) + x / 8\<close> only, setting or clearing the mask \<open>0x80 >> (x mod 8)\<close> in
  it, and reading the pixel back by the same formula gives the value written. In
  particular a write of \<open>(0, 0)\<close> sets bit \<open>0x80\<close> of byte 0, of \<open>(7, 0)\<close> bit \<open>0x01\<close>
  of byte 0, and of \<open>(8, 0)\<close> bit \<open>0x80\<close> of byte 1.
\<close>

theorem set_pixel_addressing:
  assumes "length buf = ALLSCREEN_BYTES"
  shows "(0 \<le> x \<and> x < 128 \<and> 0 \<le> y \<and> y < 296 \<longrightarrow>
           draw_absolute_pixel_internal x y on buf =
             Inr (buf[pixel_index x y :=
                   (if on then buf ! pixel_index x y OR pixel_mask x
                    else buf ! pixel_index x y AND NOT (pixel_mask x))]) \<and>
           pixel_at x y (buf[pixel_index x y :=
                   (if on then buf ! pixel_index x y OR pixel_mask x
                    else buf ! pixel_index x y AND NOT (pixel_mask x))]) = on) \<and>
         draw_absolute_pixel_internal 0 0 True buf = Inr (buf[0 := buf ! 0 OR 0x80]) \<and>
         draw_absolute_pixel_internal 7 0 True buf = Inr (buf[0 := buf ! 0 OR 0x01]) \<and>
         draw_absolute_pixel_internal 8 0 True buf = Inr (buf[1 := buf ! 1 OR 0x80])"
proof -
  have general: "draw_absolute_pixel_internal x y on buf =
             Inr (buf[pixel_index x y :=
                   (if on then buf ! pixel_index x y OR pixel_mask x
                    else buf ! pixel_index x y AND NOT (pixel_mask x))]) \<and>
           pixel_at x y (buf[pixel_index x y :=
                   (if on then buf ! pixel_index x y OR pixel_mask x
                    else buf ! pixel_index x y AND NOT (pixel_mask x))]) = on"
    if r: "0 \<le> x" "x < 128" "0 \<le> y" "y < 296"
  proof -
    have idx: "pixel_index x y < length buf"
      using pixel_index_bound [OF r] assms by simp
    have "pixel_at x y (buf[pixel_index x y :=
                   (if on then buf ! pixel_index x y OR pixel_mask x
                    else buf ! pixel_index x y AND NOT (pixel_mask x))]) = on"
      using idx pixel_mask_nonzero [OF r(1)]
      by (simp add: pixel_at_def set_mask_readback clear_mask_readback)
    then show ?thesis
      using draw_in_range [OF r assms] by simp
  qed
  show ?thesis
    using general draw_origin_scenarios [OF assms] by blast
qed

theorem set_pixel_addressing_witness:
  "draw_absolute_pixel_internal 9 2 True (replicate ALLSCREEN_BYTES 0) =
     Inr ((replicate ALLSCREEN_BYTES 0)[33 := 0x40]) \<and>
   pixel_at 9 2 ((replicate ALLSCREEN_BYTES 0)[33 := 0x40]) \<and>
   draw_absolute_pixel_internal 0 0 True (replicate ALLSCREEN_BYTES 0) =
     Inr ((replicate ALLSCREEN_BYTES 0)[0 := 0x80]) \<and>
   draw_absolute_pixel_internal 7 0 True (replicate ALLSCREEN_BYTES 0) =
     Inr ((replicate ALLSCREEN_BYTES 0)[0 := 0x01]) \<and>
   draw_absolute_pixel_internal 8 0 True (replicate ALLSCREEN_BYTES 0) =
     Inr ((replicate ALLSCREEN_BYTES 0)[1 := 0x80])"
  using set_pixel_addressing [of "replicate ALLSCREEN_BYTES 0" 9 2 True]
  by (simp add: pixel_index_def pixel_mask_def WIDTH_def ALLSCREEN_BYTES_eq)

text \<open>
  Claim C5. A pixel write at coordinates outside the panel (\<open>x < 0\<close>, \<open>x \<ge> 128\<close>,
  \<open>y < 0\<close> or \<open>y \<ge> 296\<close>), for either colour, returns without an error and leaves the
  buffer as it was. At valid coordinates it returns a buffer of the same length in which
  the addressed bit (bit \<open>7 - x mod 8\<close> of the addressed byte) has the value written and
  every other bit of every byte is unchanged.
\<close>

theorem set_pixel_out_of_range_and_frame:
  "((x < 0 \<or> 128 \<le> x \<or> y < 0 \<or> 296 \<le> y) \<longrightarrow>
      draw_absolute_pixel_internal x y on buf = Inr buf) \<and>
   (length buf = ALLSCREEN_BYTES \<and> 0 \<le> x \<and> x < 128 \<and> 0 \<le> y \<and> y < 296 \<longrightarrow>
      (\<exists>buf'. draw_absolute_pixel_internal x y on buf = Inr buf' \<and>
         length buf' = length buf \<and>
         (\<forall>i k. i < length buf \<longrightarrow>
            bit (buf' ! i) k =
              (if i = pixel_index x y \<and> k = 7 - nat (x mod 8) then on
               else bit (buf ! i) k))))"
proof (intro conjI impI)
  assume "x < 0 \<or> 128 \<le> x \<or> y < 0 \<or> 296 \<le> y"
  then show "draw_absolute_pixel_internal x y on buf = Inr buf"
    by (rule draw_out_of_range)
next
  assume a: "length buf = ALLSCREEN_BYTES \<and> 0 \<le> x \<and> x < 128 \<and> 0 \<le> y \<and> y < 296"
  then have r: "0 \<le> x" "x < 128" "0 \<le> y" "y < 296" and len: "length buf = ALLSCREEN_BYTES"
    by simp_all
  let ?buf' = "buf[pixel_index x y :=
                   (if on then buf ! pixel_index x y OR pixel_mask x
                    else buf ! pixel_index x y AND NOT (pixel_mask x))]"
  have idx: "pixel_index x y < length buf"
    using pixel_index_bound [OF r] len by simp
  have k7: "7 - nat (x mod 8) < 8" by simp
  have bits: "bit (?buf' ! i) k =
              (if i = pixel_index x y \<and> k = 7 - nat (x mod 8) then on
               else bit (buf ! i) k)" if "i < length buf" for i k
  proof (cases "i = pixel_index x y")
    case True
    then show ?thesis
      using idx bit_pixel_mask [OF r(1), of k]
      by (auto simp: bit_simps dest: bit_imp_le_length)
  next
    case False
    then show ?thesis by simp
  qed
  show "\<exists>buf'. draw_absolute_pixel_internal x y on buf = Inr buf' \<and>
         length buf' = length buf \<and>
         (\<forall>i k. i < length buf \<longrightarrow>
            bit (buf' ! i) k =
              (if i = pixel_index x y \<and> k = 7 - nat (x mod 8) then on
               else bit (buf ! i) k))"
    using draw_in_range [OF r len, of on] bits by (intro exI [of _ ?buf']) simp
qed

theorem set_pixel_out_of_range_and_frame_witness:
  "draw_absolute_pixel_internal (- 1) 5 True (replicate ALLSCREEN_BYTES 0xFF) =
     Inr (replicate ALLSCREEN_BYTES 0xFF) \<and>
   draw_absolute_pixel_internal 3 296 False (replicate ALLSCREEN_BYTES 0xFF) =
     Inr (replicate ALLSCREEN_BYTES 0xFF) \<and>
   (\<exists>buf'. draw_absolute_pixel_internal 3 5 False (replicate ALLSCREEN_BYTES 0xFF) = Inr buf' \<and>
      length buf' = ALLSCREEN_BYTES \<and>
      \<not> bit (buf' ! 80) 4 \<and> bit (buf' ! 80) 5 \<and> bit (buf' ! 81) 4)"
proof -
  let ?buf = "replicate ALLSCREEN_BYTES (0xFF :: u8)"
  have len: "length ?buf = ALLSCREEN_BYTES"
    by simp
  have out1: "draw_absolute_pixel_internal (- 1) 5 True ?buf = Inr ?buf"
    by (rule set_pixel_out_of_range_and_frame [of "- 1" 5 True ?buf, THEN conjunct1, THEN mp])
      simp
  have out2: "draw_absolute_pixel_internal 3 296 False ?buf = Inr ?buf"
    by (rule set_pixel_out_of_range_and_frame [of 3 296 False ?buf, THEN conjunct1, THEN mp])
      simp
  have "\<exists>buf'. draw_absolute_pixel_internal 3 5 False ?buf = Inr buf' \<and>
         length buf' = length ?buf \<and>
         (\<forall>i k. i < length ?buf \<longrightarrow>
            bit (buf' ! i) k =
              (if i = pixel_index 3 5 \<and> k = 7 - nat (3 mod 8) then False
               else bit (?buf ! i) k))"
    by (rule set_pixel_out_of_range_and_frame [of 3 5 False ?buf, THEN conjunct2, THEN mp])
      (simp only: len, simp)
  then obtain buf' where b: "draw_absolute_pixel_internal 3 5 False ?buf = Inr buf'"
      "length buf' = length ?buf"
      "\<And>i k. i < length ?buf \<Longrightarrow>
            bit (buf' ! i) k =
              (if i = pixel_index 3 5 \<and> k = 7 - nat (3 mod 8) then False
               else bit (?buf ! i) k)"
    by blast
  have idx: "pixel_index 3 5 = 80"
    by (simp add: pixel_index_def WIDTH_def)
  have small: "80 < ALLSCREEN_BYTES" "81 < ALLSCREEN_BYTES"
    by (simp_all add: ALLSCREEN_BYTES_eq)
  have ff: "bit (0xFF :: u8) 4" "bit (0xFF :: u8) 5"
    by (simp_all add: bit_iff_odd)
  have "\<not> bit (buf' ! 80) 4" "bit (buf' ! 80) 5" "bit (buf' ! 81) 4"
    using b(3) [of 80 4] b(3) [of 80 5] b(3) [of 81 4] small ff
    by (simp_all add: idx)
  then show ?thesis
    using out1 out2 b(1) b(2) by simp
qed

lemma draw_length:
  assumes "draw_absolute_pixel_internal x y on buf = Inr buf'"
  shows "length buf' = length buf"
  using assms
  by (auto simp: draw_absolute_pixel_internal_def buffer_modify_def Let_def split: if_splits)

lemma draw_total:
  assumes "length buf = ALLSCREEN_BYTES"
  shows "\<exists>buf'. draw_absolute_pixel_internal x y on buf = Inr buf' \<and> length buf' = ALLSCREEN_BYTES"
proof (cases "x < 0 \<or> 128 \<le> x \<or> y < 0 \<or> 296 \<le> y")
  case True
  then show ?thesis using assms by (simp add: draw_out_of_range)
next
  case False
  then have r: "0 \<le> x" "x < 128" "0 \<le> y" "y < 296" by simp_all
  show ?thesis using draw_in_range [OF r assms, of on] assms by simp
qed

lemma draw_all_total:
  assumes "length buf = ALLSCREEN_BYTES"
  shows "\<exists>buf'. draw_all ops buf = Inr buf' \<and> length buf' = ALLSCREEN_BYTES"
  using assms
proof (induction ops arbitrary: buf)
  case Nil
  then show ?case by simp
next
  case (Cons op ops)
  obtain x y on where op: "op = (x, y, on)" by (cases op) auto
  obtain b where b: "draw_absolute_pixel_internal x y on buf = Inr b" "length b = ALLSCREEN_BYTES"
    using draw_total [OF Cons.prems] by blast
  show ?case using Cons.IH [OF b(2)] b(1) by (simp add: op)
qed

text \<open>
  Claim C10. For all integer coordinates, negative ones included, and either colour, a
  pixel write on a buffer of \<open>ALLSCREEN_BYTES\<close> bytes never accesses the buffer out of
  bounds: it either returns the buffer untouched or performs one read-modify-write at an
  index below \<open>ALLSCREEN_BYTES\<close>. The same holds for any sequence of pixel writes. The
  index that coordinates inside the panel address is already below \<open>ALLSCREEN_BYTES\<close>,
  so the second guard of the source rejects none of them.
\<close>

theorem pixel_write_in_bounds:
  assumes "length buf = ALLSCREEN_BYTES"
  shows "draw_absolute_pixel_internal x y on buf \<noteq> Inl BufferOutOfBounds \<and>
         (draw_absolute_pixel_internal x y on buf = Inr buf \<or>
          (\<exists>pos f. pos < ALLSCREEN_BYTES \<and>
             draw_absolute_pixel_internal x y on buf = buffer_modify pos f buf \<and>
             buffer_modify pos f buf = Inr (buf[pos := f (buf ! pos)]))) \<and>
         (\<exists>buf'. draw_all ops buf = Inr buf' \<and> length buf' = ALLSCREEN_BYTES) \<and>
         (0 \<le> x \<and> x < 128 \<and> 0 \<le> y \<and> y < 296 \<longrightarrow> pixel_index x y < ALLSCREEN_BYTES)"
proof (intro conjI)
  show "0 \<le> x \<and> x < 128 \<and> 0 \<le> y \<and> y < 296 \<longrightarrow> pixel_index x y < ALLSCREEN_BYTES"
    using pixel_index_bound [of x y] by blast
  show "draw_absolute_pixel_internal x y on buf \<noteq> Inl BufferOutOfBounds"
    using draw_total [OF assms, of x y on] by auto
  show "\<exists>buf'. draw_all ops buf = Inr buf' \<and> length buf' = ALLSCREEN_BYTES"
    by (rule draw_all_total [OF assms])
  show "draw_absolute_pixel_internal x y on buf = Inr buf \<or>
          (\<exists>pos f. pos < ALLSCREEN_BYTES \<and>
             draw_absolute_pixel_internal x y on buf = buffer_modify pos f buf \<and>
             buffer_modify pos f buf = Inr (buf[pos := f (buf ! pos)]))"
  proof (cases "x < 0 \<or> 128 \<le> x \<or> y < 0 \<or> 296 \<le> y")
    case True
    then show ?thesis by (simp add: draw_out_of_range)
  next
    case False
    then have r: "0 \<le> x" "x < 128" "0 \<le> y" "y < 296" by simp_all
    let ?f = "\<lambda>b. if on then b OR pixel_mask x else b AND NOT (pixel_mask x)"
    have pos: "pixel_index x y < ALLSCREEN_BYTES"
      by (rule pixel_index_bound [OF r])
    have "draw_absolute_pixel_internal x y on buf = buffer_modify (pixel_index x y) ?f buf"
      using draw_in_range [OF r assms, of on] pos assms by (simp add: buffer_modify_def)
    moreover have "buffer_modify (pixel_index x y) ?f buf =
        Inr (buf[pixel_index x y := ?f (buf ! pixel_index x y)])"
      using pos assms by (simp add: buffer_modify_def)
    ultimately show ?thesis using pos by blast
  qed
qed

theorem pixel_write_in_bounds_witness:
  "draw_absolute_pixel_internal (- 5) 1000 True (replicate ALLSCREEN_BYTES 0xFF)
     \<noteq> Inl BufferOutOfBounds \<and>
   draw_absolute_pixel_internal 127 295 True (replicate ALLSCREEN_BYTES 0xFF)
     \<noteq> Inl BufferOutOfBounds \<and>
   (\<exists>buf'. draw_all [(127, 295, False), (128, 0, True), (0, - 1, True)]
              (replicate ALLSCREEN_BYTES 0xFF) = Inr buf' \<and>
            length buf' = ALLSCREEN_BYTES)"
  using pixel_write_in_bounds [of "replicate ALLSCREEN_BYTES 0xFF" "- 5" 1000 True
          "[(127, 295, False), (128, 0, True), (0, - 1, True)]"]
        pixel_write_in_bounds [of "replicate ALLSCREEN_BYTES 0xFF" 127 295 True "[]"]
  by simp

section \<open>The driver's steps\<close>

subsection \<open>Primitive steps as record updates\<close>

lemma command_eq: "command c s = s\<lparr>trace := trace s @ command_events c\<rparr>"
  by (simp add: command_def emit_def command_events_def)

lemma data_eq: "data d s = s\<lparr>trace := trace s @ data_events d\<rparr>"
  by (simp add: data_def emit_def data_events_def)

lemma write_bw_ram_eq:
  "write_bw_ram i s =
     s\<lparr>trace := trace s @ concat (map (\<lambda>j. data_events (NOT (buffer s ! j))) [i..<ALLSCREEN_BYTES])\<rparr>"
proof (induction i s rule: write_bw_ram.induct)
  case (1 i s)
  show ?case
  proof (cases "i < ALLSCREEN_BYTES")
    case True
    then show ?thesis
      using "1.IH" [OF True]
      by (subst write_bw_ram.simps) (simp add: data_eq upt_conv_Cons)
  next
    case False
    then show ?thesis
      by (subst write_bw_ram.simps) simp
  qed
qed

lemma write_red_ram_eq:
  "write_red_ram i s =
     s\<lparr>trace := trace s @ concat (replicate (ALLSCREEN_BYTES - i) (data_events 0))\<rparr>"
proof (induction i s rule: write_red_ram.induct)
  case (1 i s)
  show ?case
  proof (cases "i < ALLSCREEN_BYTES")
    case True
    then have "ALLSCREEN_BYTES - i = Suc (ALLSCREEN_BYTES - (i + 1))" by simp
    then show ?thesis
      using "1.IH" [OF True] True
      by (subst write_red_ram.simps) (simp add: data_eq del: replicate.simps add: replicate_Suc)
  next
    case False
    then show ?thesis
      by (subst write_red_ram.simps) simp
  qed
qed

subsection \<open>Quiet steps\<close>

lemma quiet_step_refl: "quiet_step s s"
  by (simp add: quiet_step_def outputs_def)

lemma quiet_step_trans:
  assumes "quiet_step s s'" "quiet_step s' s''"
  shows "quiet_step s s''"
proof -
  obtain es where es: "trace s' = trace s @ es" "outputs es = []"
    using assms(1) by (auto simp: quiet_step_def prefix_def)
  obtain fs where fs: "trace s'' = trace s' @ fs" "outputs fs = []"
    using assms(2) by (auto simp: quiet_step_def prefix_def)
  show ?thesis
    using assms es fs by (simp add: quiet_step_def outputs_def)
qed

lemma quiet_delay: "quiet_step s (delay ms s)"
  by (simp add: quiet_step_def delay_def emit_def outputs_def)

lemma quiet_feed_wdt: "quiet_step s (feed_wdt s)"
  by (simp add: quiet_step_def feed_wdt_def emit_def outputs_def)

lemma quiet_read: "quiet_step s (snd (busy_digital_read s))"
  by (simp add: quiet_step_def busy_digital_read_def emit_def outputs_def)

lemma quiet_log: "quiet_step s (emit (Log l m) s)"
  by (simp add: quiet_step_def emit_def outputs_def)

lemma quiet_log_busy: "quiet_step s (log_busy s)"
  by (simp add: log_busy_def quiet_read quiet_step_refl)

lemma quiet_poll:
  "quiet_step s (feed_wdt (delay ms (snd (busy_digital_read s))))"
  by (blast intro: quiet_step_trans quiet_read quiet_delay quiet_feed_wdt)

lemma quiet_wait_until_idle_loop: "quiet_step s (wait_until_idle_loop start s)"
proof (induction start s rule: wait_until_idle_loop.induct)
  case (1 start s)
  show ?case
    apply (subst wait_until_idle_loop.simps)
    using "1.IH"
    by (auto intro: quiet_step_trans [OF quiet_read quiet_log]
        quiet_step_trans [OF quiet_read quiet_delay]
        quiet_step_trans [OF quiet_poll])
qed

lemma quiet_wait_until_idle: "quiet_step s (wait_until_idle s)"
  by (auto simp: wait_until_idle_def quiet_delay
      intro: quiet_step_trans [OF quiet_read quiet_wait_until_idle_loop])

lemma quiet_sw_reset_loop: "quiet_step s (sw_reset_loop start s)"
proof (induction start s rule: sw_reset_loop.induct)
  case (1 start s)
  show ?case
    apply (subst sw_reset_loop.simps)
    using "1.IH"
    by (auto intro: quiet_step_trans [OF quiet_read quiet_log] quiet_read quiet_step_refl
        quiet_step_trans [OF quiet_poll])
qed

lemma quiet_full_update_loop: "quiet_step s (full_update_loop start s)"
proof (induction start s rule: full_update_loop.induct)
  case (1 start s)
  show ?case
    apply (subst full_update_loop.simps)
    using "1.IH"
    by (auto intro: quiet_read quiet_step_refl quiet_step_trans [OF quiet_poll])
qed

subsection \<open>Steady steps and what they record\<close>

lemma steadyI_eq:
  assumes "\<And>s. f s = s\<lparr>trace := trace s @ es s\<rparr>"
  shows "steady f"
  unfolding steady_def by (subst assms)+ simp

lemma steady_quiet:
  assumes "\<And>s. quiet_step s (f s)"
  shows "steady f"
  using assms by (simp add: steady_def quiet_step_def)

lemma steadyD:
  assumes "steady f"
  shows "reset_pin (f s) = reset_pin s"
    and "busy_pin (f s) = busy_pin s"
    and "busy_in (f s) = busy_in s"
    and "buffer (f s) = buffer s"
    and "initialized (f s) = initialized s"
    and "prefix (trace s) (trace (f s))"
  using assms by (simp_all add: steady_def)

lemma steady_trace:
  assumes "steady f"
  shows "trace (f s) = trace s @ capture f s"
  using steadyD(6) [OF assms, of s] by (auto simp: capture_def prefix_def)

lemma steady_emit: "steady (emit e)"
  by (simp add: steady_def emit_def)

lemma steady_delay: "steady (delay ms)"
  by (simp add: steady_def delay_def emit_def)

lemma steady_command: "steady (command c)"
  by (rule steadyI_eq) (rule command_eq)

lemma steady_data: "steady (data d)"
  by (rule steadyI_eq) (rule data_eq)

lemma steady_write_bw_ram: "steady (write_bw_ram i)"
  by (rule steadyI_eq) (rule write_bw_ram_eq)

lemma steady_write_red_ram: "steady (write_red_ram i)"
  by (rule steadyI_eq) (rule write_red_ram_eq)

lemma steady_wait_until_idle: "steady wait_until_idle"
  by (rule steady_quiet) (rule quiet_wait_until_idle)

lemma steady_log_busy: "steady log_busy"
  by (rule steady_quiet) (rule quiet_log_busy)

lemma steady_sw_reset_wait: "steady (\<lambda>s. sw_reset_loop (millis s) s)"
  by (rule steady_quiet) (rule quiet_sw_reset_loop)

lemma steady_full_update_wait: "steady (\<lambda>s. full_update_loop (millis s) s)"
  by (rule steady_quiet) (rule quiet_full_update_loop)

lemma steady_run_Nil: "steady (run [])"
  by (simp add: steady_def)

lemma steady_run_Cons:
  assumes "steady f" "steady (run fs)"
  shows "steady (run (f # fs))"
  unfolding steady_def
proof (intro allI conjI)
  fix s
  show "prefix (trace s) (trace (run (f # fs) s))"
    using steadyD(6) [OF assms(1), of s] steadyD(6) [OF assms(2), of "f s"]
    by (auto simp: prefix_def)
qed (simp_all add: steadyD [OF assms(1)] steadyD [OF assms(2)])

lemma steady_when:
  assumes "steady f"
  shows "steady (\<lambda>s. if reset_pin s then f s else s)"
  using assms by (simp add: steady_def)

lemmas steady_intros =
  steady_emit steady_delay steady_command steady_data steady_write_bw_ram steady_write_red_ram
  steady_wait_until_idle steady_log_busy steady_sw_reset_wait steady_full_update_wait
  steady_run_Nil steady_run_Cons steady_when

lemma steady_full_update: "steady full_update"
  unfolding full_update_def by (intro steady_intros)

lemma steady_display_frame: "steady display_frame"
  unfolding display_frame_def by (intro steady_intros steady_full_update)

lemma steady_init_display: "steady init_display"
  unfolding init_display_def by (intro steady_intros)

lemma capture_eqI:
  assumes "trace (f s) = trace s @ es"
  shows "capture f s = es"
  using assms by (simp add: capture_def)

lemma capture_run_Nil: "capture (run []) s = []"
  by (simp add: capture_def)

lemma capture_run_Cons:
  assumes "steady f" "steady (run fs)"
  shows "capture (run (f # fs)) s = capture f s @ capture (run fs) (f s)"
proof -
  have "trace (run (f # fs) s) = trace (f s) @ capture (run fs) (f s)"
    using steady_trace [OF assms(2), of "f s"] by simp
  then have "trace (run (f # fs) s) = trace s @ capture f s @ capture (run fs) (f s)"
    using steady_trace [OF assms(1), of s] by simp
  then show ?thesis
    by (rule capture_eqI)
qed

lemma capture_when:
  "capture (\<lambda>s. if reset_pin s then f s else s) s = (if reset_pin s then capture f s else [])"
  by (simp add: capture_def)

lemma capture_emit: "capture (emit e) s = [e]"
  by (simp add: capture_def emit_def)

lemma capture_delay: "capture (delay ms) s = [Delay ms]"
  by (simp add: capture_def delay_def emit_def)

lemma capture_command: "capture (command c) s = command_events c"
  by (simp add: capture_def command_eq)

lemma capture_data: "capture (data d) s = data_events d"
  by (simp add: capture_def data_eq)

lemma bw_ram_events:
  assumes "length buf = ALLSCREEN_BYTES"
  shows "concat (map (\<lambda>j. data_events (NOT (buf ! j))) [0..<ALLSCREEN_BYTES]) =
         concat (map data_events (map NOT buf))"
proof -
  have "map (\<lambda>j. data_events (NOT (buf ! j))) [0..<length buf] =
        map (\<lambda>b. data_events (NOT b)) (map (\<lambda>j. buf ! j) [0..<length buf])"
    by simp
  also have "\<dots> = map (\<lambda>b. data_events (NOT b)) buf"
    by (simp only: map_nth)
  finally show ?thesis using assms by (simp add: comp_def)
qed

lemma capture_write_bw_ram:
  assumes "length (buffer s) = ALLSCREEN_BYTES"
  shows "capture (write_bw_ram 0) s = concat (map data_events (map NOT (buffer s)))"
  by (simp add: capture_def write_bw_ram_eq bw_ram_events [OF assms])

lemma capture_write_red_ram:
  "capture (write_red_ram 0) s = concat (map data_events (replicate ALLSCREEN_BYTES 0))"
  by (simp add: capture_def write_red_ram_eq)

lemmas step_fields [simp] =
  steadyD(1-5) [OF steady_emit] steadyD(1-5) [OF steady_delay]
  steadyD(1-5) [OF steady_command] steadyD(1-5) [OF steady_data]
  steadyD(1-5) [OF steady_write_bw_ram] steadyD(1-5) [OF steady_write_red_ram]
  steadyD(1-5) [OF steady_wait_until_idle] steadyD(1-5) [OF steady_log_busy]
  steadyD(1-5) [OF steady_full_update] steadyD(1-5) [OF steady_display_frame]
  steadyD(1-5) [OF steady_init_display]

lemma loop_fields [simp]:
  "reset_pin (sw_reset_loop start s) = reset_pin s"
  "busy_pin (sw_reset_loop start s) = busy_pin s"
  "busy_in (sw_reset_loop start s) = busy_in s"
  "buffer (sw_reset_loop start s) = buffer s"
  "initialized (sw_reset_loop start s) = initialized s"
  "reset_pin (full_update_loop start s) = reset_pin s"
  "busy_pin (full_update_loop start s) = busy_pin s"
  "busy_in (full_update_loop start s) = busy_in s"
  "buffer (full_update_loop start s) = buffer s"
  "initialized (full_update_loop start s) = initialized s"
  using quiet_sw_reset_loop [of s start] quiet_full_update_loop [of s start]
  by (simp_all add: quiet_step_def)

lemma run_fields:
  assumes "steady (run fs)"
  shows "reset_pin (run fs s) = reset_pin s"
    and "busy_pin (run fs s) = busy_pin s"
    and "busy_in (run fs s) = busy_in s"
    and "buffer (run fs s) = buffer s"
    and "initialized (run fs s) = initialized s"
  using steadyD [OF assms] by simp_all

lemma outputs_append [simp]: "outputs (xs @ ys) = outputs xs @ outputs ys"
  by (simp add: outputs_def)

lemma outputs_Nil [simp]: "outputs [] = []"
  by (simp add: outputs_def)

lemma outputs_Cons [simp]: "outputs (e # es) = (if is_output e then e # outputs es else outputs es)"
  by (simp add: outputs_def)

lemma outputs_command_events [simp]: "outputs (command_events c) = command_events c"
  by (simp add: command_events_def)

lemma outputs_data_events [simp]: "outputs (data_events d) = data_events d"
  by (simp add: data_events_def)

lemma outputs_concat_data [simp]:
  "outputs (concat (map data_events bs)) = concat (map data_events bs)"
  by (induction bs) simp_all

lemma outputs_concat_data_comp [simp]:
  "outputs (concat (map (data_events \<circ> f) bs)) = concat (map (data_events \<circ> f) bs)"
  by (induction bs) simp_all

lemma outputs_concat_replicate [simp]:
  "outputs (concat (replicate n (data_events d))) = concat (replicate n (data_events d))"
  by (induction n) simp_all

lemma outputs_quiet:
  assumes "quiet_step s (f s)"
  shows "outputs (capture f s) = []"
  using assms by (simp add: quiet_step_def capture_def)

lemma outputs_waits [simp]:
  "outputs (capture wait_until_idle s) = []"
  "outputs (capture log_busy s) = []"
  "outputs (capture (\<lambda>s. sw_reset_loop (millis s) s) s) = []"
  "outputs (capture (\<lambda>s. full_update_loop (millis s) s) s) = []"
  using quiet_wait_until_idle [of s] quiet_log_busy [of s] quiet_sw_reset_loop [of s "millis s"]
    quiet_full_update_loop [of s "millis s"]
  by (simp_all add: quiet_step_def capture_def)

lemmas capture_simps =
  capture_run_Cons capture_run_Nil capture_when capture_emit capture_delay capture_command
  capture_data capture_write_red_ram steady_intros steady_full_update run_fields

lemma display_frame_outputs:
  assumes "length (buffer s) = ALLSCREEN_BYTES"
  shows "outputs (capture display_frame s) =
           (if reset_pin s then [ResetWrite False, ResetWrite True] else []) @
           frame_bus_events (buffer s)"
  using assms
  by (simp add: display_frame_def full_update_def capture_simps capture_write_bw_ram
      frame_bus_events_def frame_config_events_def del: run.simps)

lemma display_frame_pulse:
  assumes "reset_pin s"
  shows "take 4 (capture display_frame s) =
           [ResetWrite False, Delay 10, ResetWrite True, Delay 10]"
  using assms
  by (simp add: display_frame_def capture_simps del: run.simps)

lemma init_display_outputs:
  "outputs (capture init_display s) =
     (if reset_pin s then [ResetWrite True, ResetWrite False, ResetWrite True] else []) @
     config_bus_events"
  by (simp add: init_display_def capture_simps config_bus_events_def del: run.simps)


section \<open>Observing the bus\<close>

subsection \<open>Observers\<close>

lemma bus_bytes_outputs: "bus_bytes dc (outputs es) = bus_bytes dc es"
  by (induction dc es rule: bus_bytes.induct) simp_all

lemma transactions_outputs: "transactions dc cur (outputs es) = transactions dc cur es"
  by (induction dc cur es rule: transactions.induct) simp_all

lemma reset_writes_outputs: "reset_writes (outputs es) = reset_writes es"
  by (induction es rule: reset_writes.induct) simp_all

lemma reset_writes_append: "reset_writes (xs @ ys) = reset_writes xs @ reset_writes ys"
  by (induction xs rule: reset_writes.induct) simp_all

lemma bus_bytes_command [simp]:
  "bus_bytes dc (command_events c @ es) = (False, c) # bus_bytes False es"
  by (simp add: command_events_def)

lemma bus_bytes_data [simp]:
  "bus_bytes dc (data_events d @ es) = (True, d) # bus_bytes True es"
  by (simp add: data_events_def)

lemma bus_bytes_command_last [simp]: "bus_bytes dc (command_events c) = [(False, c)]"
  by (simp add: command_events_def)

lemma bus_bytes_data_last [simp]: "bus_bytes dc (data_events d) = [(True, d)]"
  by (simp add: data_events_def)

lemma bus_bytes_data_block:
  "bus_bytes dc (concat (map data_events bs) @ command_events c @ es) =
     map (Pair True) bs @ (False, c) # bus_bytes False es"
  by (induction bs arbitrary: dc) simp_all

lemma group_pairs_command:
  "group_pairs ((False, c) # rest) =
     (c, map snd (takeWhile fst rest)) # group_pairs (dropWhile fst rest)"
  by simp

lemma map_snd_Pair: "map snd (map (Pair b) xs) = xs"
  by (induction xs) simp_all

lemma takeWhile_data_block:
  "takeWhile fst (map (Pair True) bs @ (False, c) # rest) = map (Pair True) bs"
  by (induction bs) simp_all

lemma dropWhile_data_block:
  "dropWhile fst (map (Pair True) bs @ (False, c) # rest) = (False, c) # rest"
  by (induction bs) simp_all

lemma group_pairs_block:
  "group_pairs ((False, c) # map (Pair True) bs @ (False, c') # rest) =
     (c, bs) # group_pairs ((False, c') # rest)"
  by (simp only: group_pairs_command takeWhile_data_block dropWhile_data_block map_snd_Pair)

lemma frame_bus_bytes:
  "bus_bytes dc (frame_bus_events buf) =
     [(False, 0x12),
      (False, 0x01), (True, 0x27), (True, 0x01), (True, 0x00),
      (False, 0x11), (True, 0x03),
      (False, 0x44), (True, 0x00), (True, 0x0F),
      (False, 0x45), (True, 0x00), (True, 0x00), (True, 0x27), (True, 0x01),
      (False, 0x4E), (True, 0x00),
      (False, 0x4F), (True, 0x00), (True, 0x00)] @
     ((False, 0x24) # map (Pair True) (map NOT buf) @
      (False, 0x4E) # (True, 0x00) # (False, 0x4F) # (True, 0x00) # (True, 0x00) #
      (False, 0x26) # map (Pair True) (replicate ALLSCREEN_BYTES 0x00) @
      (False, 0x22) # [(True, 0xF7), (False, 0x20)])"
  by (simp only: frame_bus_events_def frame_config_events_def append_assoc bus_bytes_command
      bus_bytes_data bus_bytes_data_block bus_bytes_command_last append.simps)

lemma frame_bus_pairs: "bus_pairs (frame_bus_events buf) = frame_pairs buf"
proof -
  have "group_pairs ((False, 0x24) # map (Pair True) (map NOT buf) @
      (False, 0x4E) # (True, 0x00) # (False, 0x4F) # (True, 0x00) # (True, 0x00) #
      (False, 0x26) # map (Pair True) (replicate ALLSCREEN_BYTES 0x00) @
      (False, 0x22) # [(True, 0xF7), (False, 0x20)]) =
      [(0x24, map NOT buf), (0x4E, [0x00]), (0x4F, [0x00, 0x00]),
       (0x26, replicate ALLSCREEN_BYTES 0x00), (0x22, [0xF7]), (0x20, [])]"
    by (simp only: group_pairs.simps takeWhile_data_block dropWhile_data_block map_snd_Pair
        takeWhile.simps dropWhile.simps fst_conv snd_conv if_True if_False list.map simp_thms)
  then show ?thesis
    by (simp add: bus_pairs_def frame_bus_bytes frame_pairs_def del: replicate.simps map_replicate)
qed


section \<open>Updates\<close>

subsection \<open>One call of update\<close>

lemma draw_all_length:
  assumes "draw_all ops buf = Inr buf'"
  shows "length buf' = length buf"
  using assms
proof (induction ops arbitrary: buf)
  case Nil
  then show ?case by simp
next
  case (Cons op ops)
  obtain x y on where op: "op = (x, y, on)" by (cases op) auto
  from Cons.prems obtain b where b: "draw_absolute_pixel_internal x y on buf = Inr b"
      "draw_all ops b = Inr buf'"
    by (auto simp: op split: sum.splits)
  show ?case using Cons.IH [OF b(2)] draw_length [OF b(1)] by simp
qed

lemma steady_busy_read: "steady (\<lambda>s. snd (busy_digital_read s))"
  by (rule steady_quiet) (rule quiet_read)

lemmas busy_read_fields [simp] = steadyD(1-5) [OF steady_busy_read]

lemma outputs_busy_read [simp]: "outputs (capture (\<lambda>s. snd (busy_digital_read s)) s) = []"
  using quiet_read [of s] by (simp add: quiet_step_def capture_def)

lemma first_update_steps_eq:
  "first_update_steps s = (pin_swap_and_init s)\<lparr>initialized := True\<rparr>"
  by (simp add: first_update_steps_def pin_swap_and_init_def)

lemma steady_pin_swap_and_init: "steady pin_swap_and_init"
  unfolding pin_swap_and_init_def by (intro steady_intros steady_busy_read steady_init_display)

lemma pin_swap_and_init_outputs:
  "outputs (capture pin_swap_and_init s) =
     [GpioConfig 47 GPIO_MODE_INPUT, GpioConfig 47 GPIO_MODE_OUTPUT, GpioSetLevel 47 True] @
     (if reset_pin s then [ResetWrite True, ResetWrite False, ResetWrite True] else []) @
     config_bus_events"
  by (simp add: pin_swap_and_init_def capture_simps steady_busy_read steady_init_display
      init_display_outputs del: run.simps)

lemma update_Inr:
  assumes "update ops s = Inr s'" "length (buffer s) = ALLSCREEN_BYTES"
  shows "initialized s'"
    and "reset_pin s' = reset_pin s"
    and "busy_pin s' = busy_pin s"
    and "busy_in s' = busy_in s"
    and "draw_all ops (buffer s) = Inr (buffer s')"
    and "length (buffer s') = ALLSCREEN_BYTES"
    and "initialized s \<or> busy_pin s"
    and "\<exists>es. trace s' = trace s @ es \<and>
           outputs es = (if initialized s then [] else first_outputs (reset_pin s)) @
                        frame_outputs (reset_pin s) (buffer s')"
proof -
  define s1 where "s1 = (if initialized s then s else first_update_steps s)"
  have ok: "initialized s \<or> busy_pin s"
    using assms(1) by (auto simp: update_def first_update_init_def split: if_splits)
  then have first: "(if \<not> initialized s then first_update_init s else Inr s) = Inr s1"
    by (auto simp: s1_def first_update_init_def)
  obtain buf' where buf': "draw_all ops (buffer s1) = Inr buf'"
    and s': "s' = display_frame (s1\<lparr>buffer := buf'\<rparr>)"
    using assms(1) unfolding update_def first
    by (auto simp: do_update_def split: sum.splits)
  note st = steadyD [OF steady_pin_swap_and_init, of s]
  have s1_fields: "reset_pin s1 = reset_pin s" "busy_pin s1 = busy_pin s"
      "busy_in s1 = busy_in s" "buffer s1 = buffer s" "initialized s1"
    using st by (simp_all add: s1_def first_update_steps_eq)
  have len: "length buf' = ALLSCREEN_BYTES"
    using draw_all_length [OF buf'] assms(2) s1_fields by simp
  show "initialized s'" "reset_pin s' = reset_pin s" "busy_pin s' = busy_pin s"
      "busy_in s' = busy_in s" "draw_all ops (buffer s) = Inr (buffer s')"
      "length (buffer s') = ALLSCREEN_BYTES" "initialized s \<or> busy_pin s"
    using s1_fields buf' len ok by (simp_all add: s')
  have t1: "trace s1 = trace s @ (if initialized s then [] else capture pin_swap_and_init s)"
    using steady_trace [OF steady_pin_swap_and_init, of s]
    by (simp add: s1_def first_update_steps_eq)
  have t2: "trace s' = trace s1 @ capture display_frame (s1\<lparr>buffer := buf'\<rparr>)"
    using steady_trace [OF steady_display_frame, of "s1\<lparr>buffer := buf'\<rparr>"] by (simp add: s')
  have o2: "outputs (capture display_frame (s1\<lparr>buffer := buf'\<rparr>)) =
      frame_outputs (reset_pin s) (buffer s')"
    using display_frame_outputs [of "s1\<lparr>buffer := buf'\<rparr>"] len s1_fields
    by (simp add: frame_outputs_def s')
  show "\<exists>es. trace s' = trace s @ es \<and>
           outputs es = (if initialized s then [] else first_outputs (reset_pin s)) @
                        frame_outputs (reset_pin s) (buffer s')"
    by (rule exI [of _ "(if initialized s then [] else capture pin_swap_and_init s) @
           capture display_frame (s1\<lparr>buffer := buf'\<rparr>)"])
      (simp add: t1 t2 o2 pin_swap_and_init_outputs first_outputs_def)
qed

lemma update_succeeds:
  assumes "initialized s \<or> busy_pin s" "length (buffer s) = ALLSCREEN_BYTES"
  shows "\<exists>s'. update ops s = Inr s'"
proof -
  define s1 where "s1 = (if initialized s then s else first_update_steps s)"
  have first: "(if \<not> initialized s then first_update_init s else Inr s) = Inr s1"
    using assms(1) by (auto simp: s1_def first_update_init_def)
  have "buffer s1 = buffer s"
    using steadyD [OF steady_pin_swap_and_init, of s] by (simp add: s1_def first_update_steps_eq)
  then obtain buf' where "draw_all ops (buffer s1) = Inr buf'"
    using draw_all_total [of "buffer s" ops] assms(2) by auto
  then show ?thesis
    unfolding update_def first by (simp add: do_update_def)
qed

subsection \<open>Setup\<close>

lemma setup_display_fields [simp]:
  "reset_pin (setup_display s) = reset_pin s"
  "busy_pin (setup_display s) = busy_pin s"
  "busy_in (setup_display s) = busy_in s"
  "buffer (setup_display s) = replicate ALLSCREEN_BYTES 0xFF"
  "initialized (setup_display s) = False"
  by (simp_all add: setup_display_def)

lemma setup_display_outputs:
  "outputs (trace (setup_display s)) =
     outputs (trace s) @
     [GpioConfig 7 GPIO_MODE_OUTPUT, GpioSetLevel 7 True, PinSetup DC_PIN, DcWrite False] @
     (if reset_pin s then [PinSetup RESET_PIN, ResetWrite True] else []) @
     (if busy_pin s then [PinSetup BUSY_PIN] else []) @ [SpiSetup]"
  by (simp add: setup_display_def emit_def delay_def)

lemma new_driver_fields [simp]:
  "reset_pin (new_driver r b f t) = r"
  "busy_pin (new_driver r b f t) = b"
  "busy_in (new_driver r b f t) = f"
  "busy_reads (new_driver r b f t) = 0"
  "clock (new_driver r b f t) = t"
  "trace (new_driver r b f t) = []"
  by (simp_all add: new_driver_def)

subsection \<open>The write phase on the bus\<close>

lemma display_frame_bus_bytes:
  assumes "length (buffer s) = ALLSCREEN_BYTES"
  shows "bus_bytes dc (capture display_frame s) = bus_bytes dc (frame_bus_events (buffer s))"
proof -
  have "bus_bytes dc (capture display_frame s) = bus_bytes dc (outputs (capture display_frame s))"
    by (simp add: bus_bytes_outputs)
  then show ?thesis
    by (simp add: display_frame_outputs [OF assms])
qed

lemma display_frame_pairs:
  assumes "length (buffer s) = ALLSCREEN_BYTES"
  shows "bus_pairs (capture display_frame s) = frame_pairs (buffer s)"
  using frame_bus_pairs [of "buffer s"]
  by (simp add: bus_pairs_def display_frame_bus_bytes [OF assms])

subsection \<open>Scoped bus transactions\<close>

lemma transactions_command [simp]:
  "transactions dc None (command_events c @ es) = (False, [c]) # transactions False None es"
  by (simp add: command_events_def)

lemma transactions_data [simp]:
  "transactions dc None (data_events d @ es) = (True, [d]) # transactions True None es"
  by (simp add: data_events_def)

lemma transactions_command_last [simp]:
  "transactions dc None (command_events c) = [(False, [c])]"
  by (simp add: command_events_def)

lemma transactions_data_block:
  "transactions dc None (concat (map data_events bs) @ command_events c @ es) =
     map (\<lambda>b. (True, [b])) bs @ (False, [c]) # transactions False None es"
  by (induction bs arbitrary: dc) simp_all

lemma frame_transactions:
  "transactions dc None (frame_bus_events buf) =
     [(False, [0x12]),
      (False, [0x01]), (True, [0x27]), (True, [0x01]), (True, [0x00]),
      (False, [0x11]), (True, [0x03]),
      (False, [0x44]), (True, [0x00]), (True, [0x0F]),
      (False, [0x45]), (True, [0x00]), (True, [0x00]), (True, [0x27]), (True, [0x01]),
      (False, [0x4E]), (True, [0x00]),
      (False, [0x4F]), (True, [0x00]), (True, [0x00])] @
     (False, [0x24]) # map (\<lambda>b. (True, [b])) (map NOT buf) @
     [(False, [0x4E]), (True, [0x00]), (False, [0x4F]), (True, [0x00]), (True, [0x00])] @
     (False, [0x26]) # map (\<lambda>b. (True, [b])) (replicate ALLSCREEN_BYTES 0x00) @
     [(False, [0x22]), (True, [0xF7]), (False, [0x20])]"
  by (simp only: frame_bus_events_def frame_config_events_def append_assoc transactions_command
      transactions_data transactions_data_block transactions_command_last append.simps)

lemma display_frame_transactions:
  assumes "length (buffer s) = ALLSCREEN_BYTES"
  shows "transactions False None (capture display_frame s) =
           transactions False None (frame_bus_events (buffer s))"
proof -
  have "transactions False None (capture display_frame s) =
        transactions False None (outputs (capture display_frame s))"
    by (simp add: transactions_outputs)
  then show ?thesis
    by (simp add: display_frame_outputs [OF assms])
qed

lemma frame_transactions_single:
  assumes "t \<in> set (transactions dc None (frame_bus_events buf))"
  shows "length (snd t) = 1"
  using assms unfolding frame_transactions by auto

text \<open>
  Claim C9, as the code has it. The primary bit-plane is not sent as one scoped bus
  transaction: after the command \<open>0x24\<close> each of the \<open>ALLSCREEN_BYTES\<close> inverted buffer
  bytes is sent by its own \<^verbatim>\<open>data_\<close> call, that is in a scoped transaction (one
  enable/disable pair, selector line on data) of its own, and so is every byte of the
  secondary plane. The block transfer \<^verbatim>\<open>send_data_\<close> is not used.
\<close>

theorem primary_plane_one_transaction_per_byte:
  assumes "length (buffer s) = ALLSCREEN_BYTES"
  shows "transactions False None (capture display_frame s) =
     [(False, [0x12]),
      (False, [0x01]), (True, [0x27]), (True, [0x01]), (True, [0x00]),
      (False, [0x11]), (True, [0x03]),
      (False, [0x44]), (True, [0x00]), (True, [0x0F]),
      (False, [0x45]), (True, [0x00]), (True, [0x00]), (True, [0x27]), (True, [0x01]),
      (False, [0x4E]), (True, [0x00]),
      (False, [0x4F]), (True, [0x00]), (True, [0x00])] @
     (False, [0x24]) # map (\<lambda>b. (True, [NOT b])) (buffer s) @
     [(False, [0x4E]), (True, [0x00]), (False, [0x4F]), (True, [0x00]), (True, [0x00])] @
     (False, [0x26]) # replicate ALLSCREEN_BYTES (True, [0x00]) @
     [(False, [0x22]), (True, [0xF7]), (False, [0x20])]"
  unfolding display_frame_transactions [OF assms] frame_transactions
  by (simp add: comp_def)

theorem primary_plane_one_transaction_per_byte_witness:
  "transactions False None
       (capture display_frame (setup_display (new_driver True True never_busy 0))) =
     [(False, [0x12]),
      (False, [0x01]), (True, [0x27]), (True, [0x01]), (True, [0x00]),
      (False, [0x11]), (True, [0x03]),
      (False, [0x44]), (True, [0x00]), (True, [0x0F]),
      (False, [0x45]), (True, [0x00]), (True, [0x00]), (True, [0x27]), (True, [0x01]),
      (False, [0x4E]), (True, [0x00]),
      (False, [0x4F]), (True, [0x00]), (True, [0x00])] @
     (False, [0x24]) # replicate ALLSCREEN_BYTES (True, [0x00]) @
     [(False, [0x4E]), (True, [0x00]), (False, [0x4F]), (True, [0x00]), (True, [0x00])] @
     (False, [0x26]) # replicate ALLSCREEN_BYTES (True, [0x00]) @
     [(False, [0x22]), (True, [0xF7]), (False, [0x20])]"
  using primary_plane_one_transaction_per_byte
          [of "setup_display (new_driver True True never_busy 0)"]
  by simp

theorem primary_plane_single_transaction_counterexample:
  "(True, map NOT (buffer (setup_display (new_driver True True never_busy 0))))
     \<notin> set (transactions False None
               (capture display_frame (setup_display (new_driver True True never_busy 0))))"
proof
  let ?s = "setup_display (new_driver True True never_busy 0)"
  assume "(True, map NOT (buffer ?s)) \<in> set (transactions False None (capture display_frame ?s))"
  then have "(True, map NOT (buffer ?s)) \<in> set (transactions False None (frame_bus_events (buffer ?s)))"
    by (simp add: display_frame_transactions)
  then have "length (snd (True, map NOT (buffer ?s))) = 1"
    by (rule frame_transactions_single)
  then show False
    by (simp add: ALLSCREEN_BYTES_def WIDTH_def HEIGHT_def)
qed

subsection \<open>The reset line\<close>

lemma reset_writes_quiet:
  assumes "outputs es = []"
  shows "reset_writes es = []"
  using reset_writes_outputs [of es] assms by simp

lemma reset_writes_bus [simp]:
  "reset_writes (command_events c) = []"
  "reset_writes (data_events d) = []"
  by (simp_all add: command_events_def data_events_def)

lemma reset_writes_data_block [simp]: "reset_writes (concat (map data_events bs)) = []"
  by (induction bs) (simp_all add: reset_writes_append)

lemma reset_writes_data_block_comp [simp]:
  "reset_writes (concat (map (data_events \<circ> f) bs)) = []"
  by (induction bs) (simp_all add: reset_writes_append)

lemma reset_writes_data_replicate [simp]:
  "reset_writes (concat (replicate n (data_events d))) = []"
  by (induction n) (simp_all add: reset_writes_append)

lemma reset_writes_frame_bus_events [simp]: "reset_writes (frame_bus_events buf) = []"
  by (simp add: frame_bus_events_def frame_config_events_def reset_writes_append)

lemma reset_writes_config_bus_events [simp]: "reset_writes config_bus_events = []"
  by (simp add: config_bus_events_def reset_writes_append)

lemma capture_write_bw_ram_gen:
  "capture (write_bw_ram 0) s =
     concat (map data_events (map (\<lambda>j. NOT (buffer s ! j)) [0..<ALLSCREEN_BYTES]))"
  by (simp add: capture_def write_bw_ram_eq comp_def)

lemma display_frame_reset_writes:
  "reset_writes (capture display_frame s) = (if reset_pin s then [False, True] else [])"
proof -
  have "outputs (capture display_frame s) =
          (if reset_pin s then [ResetWrite False, ResetWrite True] else []) @
          frame_config_events @ command_events 0x24 @
          concat (map data_events (map (\<lambda>j. NOT (buffer s ! j)) [0..<ALLSCREEN_BYTES])) @
          command_events 0x4E @ data_events 0x00 @
          command_events 0x4F @ data_events 0x00 @ data_events 0x00 @
          command_events 0x26 @ concat (map data_events (replicate ALLSCREEN_BYTES 0x00)) @
          command_events 0x22 @ data_events 0xF7 @ command_events 0x20"
    by (simp add: display_frame_def full_update_def capture_simps capture_write_bw_ram_gen
      frame_config_events_def del: run.simps)
  then have "reset_writes (outputs (capture display_frame s)) =
      (if reset_pin s then [False, True] else [])"
    by (simp add: reset_writes_append frame_config_events_def del: map_map map_replicate)
  then show ?thesis
    by (simp add: reset_writes_outputs)
qed

lemma hw_reset_capture:
  "capture hw_reset s =
     (if reset_pin s
      then [ResetWrite True, Delay 10, ResetWrite False, Delay 10, ResetWrite True, Delay 10]
      else [Log LOG_WARN ''No reset pin configured!''])"
  by (simp add: hw_reset_def capture_def emit_def delay_def)

subsection \<open>Grouping a concatenation\<close>

lemma takeWhile_before_command:
  assumes "ys = [] \<or> \<not> fst (hd ys)"
  shows "takeWhile fst (xs @ ys) = takeWhile fst xs"
  using assms by (induction xs) (auto simp: takeWhile_eq_Nil_iff neq_Nil_conv)

lemma dropWhile_before_command:
  assumes "ys = [] \<or> \<not> fst (hd ys)"
  shows "dropWhile fst (xs @ ys) = dropWhile fst xs @ ys"
  using assms by (induction xs) (auto simp: dropWhile_eq_self_iff neq_Nil_conv)

lemma group_pairs_append:
  assumes "ys = [] \<or> \<not> fst (hd ys)"
  shows "group_pairs (xs @ ys) = group_pairs xs @ group_pairs ys"
proof (induction xs rule: group_pairs.induct)
  case 1
  then show ?case by simp
next
  case (2 dc b rest)
  then show ?case
    by (simp add: takeWhile_before_command [OF assms] dropWhile_before_command [OF assms])
qed

lemma config_bus_bytes:
  "bus_bytes dc (config_bus_events @ rest) =
     [(False, 0x12),
      (False, 0x01), (True, 0x27), (True, 0x01), (True, 0x00),
      (False, 0x11), (True, 0x03),
      (False, 0x44), (True, 0x00), (True, 0x0F),
      (False, 0x45), (True, 0x00), (True, 0x00), (True, 0x27), (True, 0x01),
      (False, 0x3C), (True, 0x05),
      (False, 0x18), (True, 0x80),
      (False, 0x4E), (True, 0x00),
      (False, 0x4F), (True, 0x00), (True, 0x00)] @ bus_bytes True rest"
  by (simp add: config_bus_events_def)

lemma config_pairs:
  "group_pairs
     [(False, 0x12),
      (False, 0x01), (True, 0x27), (True, 0x01), (True, 0x00),
      (False, 0x11), (True, 0x03),
      (False, 0x44), (True, 0x00), (True, 0x0F),
      (False, 0x45), (True, 0x00), (True, 0x00), (True, 0x27), (True, 0x01),
      (False, 0x3C), (True, 0x05),
      (False, 0x18), (True, 0x80),
      (False, 0x4E), (True, 0x00),
      (False, 0x4F), (True, 0x00), (True, 0x00 :: u8)] = one_time_config"
  by (simp add: one_time_config_def)

lemma frame_bus_bytes_append:
  "bus_bytes dc (frame_bus_events buf @ rest) =
     bus_bytes False (frame_bus_events buf) @ bus_bytes False rest"
  by (simp only: frame_bus_events_def frame_config_events_def append_assoc bus_bytes_command
      bus_bytes_data bus_bytes_data_block bus_bytes_command_last append.simps)

lemma frame_outputs_bus_bytes:
  "bus_bytes dc (frame_outputs r buf @ rest) =
     bus_bytes False (frame_bus_events buf) @ bus_bytes False rest"
  using frame_bus_bytes_append [of dc buf rest]
  by (simp add: frame_outputs_def)

lemma frames_bus_bytes:
  "bus_bytes dc (concat (map (frame_outputs r) bufs)) =
     concat (map (\<lambda>buf. bus_bytes False (frame_bus_events buf)) bufs)"
  by (induction bufs arbitrary: dc) (simp_all add: frame_outputs_bus_bytes)

lemma frame_bytes_start:
  "bus_bytes False (frame_bus_events buf) \<noteq> [] \<and>
   \<not> fst (hd (bus_bytes False (frame_bus_events buf)))"
  by (simp add: frame_bus_bytes)

lemma frames_bytes_start:
  "concat (map (\<lambda>buf. bus_bytes False (frame_bus_events buf)) bufs) = [] \<or>
   \<not> fst (hd (concat (map (\<lambda>buf. bus_bytes False (frame_bus_events buf)) bufs)))"
  using frame_bytes_start by (cases bufs) auto

lemma frames_pairs:
  "group_pairs (concat (map (\<lambda>buf. bus_bytes False (frame_bus_events buf)) bufs)) =
     concat (map frame_pairs bufs)"
proof (induction bufs)
  case Nil
  then show ?case by simp
next
  case (Cons buf bufs)
  have "group_pairs (bus_bytes False (frame_bus_events buf) @
          concat (map (\<lambda>buf. bus_bytes False (frame_bus_events buf)) bufs)) =
        group_pairs (bus_bytes False (frame_bus_events buf)) @
        group_pairs (concat (map (\<lambda>buf. bus_bytes False (frame_bus_events buf)) bufs))"
    by (rule group_pairs_append [OF frames_bytes_start])
  then show ?case
    using Cons.IH frame_bus_pairs [of buf] by (simp add: bus_pairs_def)
qed

subsection \<open>Successive updates\<close>

lemma updates_initialized:
  assumes "updates opss s = Inr s'" "initialized s" "length (buffer s) = ALLSCREEN_BYTES"
  shows "initialized s' \<and> reset_pin s' = reset_pin s \<and> busy_pin s' = busy_pin s \<and>
         length (buffer s') = ALLSCREEN_BYTES \<and>
         (\<exists>es bufs. trace s' = trace s @ es \<and> length bufs = length opss \<and>
            outputs es = concat (map (frame_outputs (reset_pin s)) bufs))"
  using assms
proof (induction opss arbitrary: s)
  case Nil
  then show ?case by simp
next
  case (Cons ops opss)
  from Cons.prems(1) obtain s1 where s1: "update ops s = Inr s1" "updates opss s1 = Inr s'"
    by (auto split: sum.splits)
  note u = update_Inr [OF s1(1) Cons.prems(3)]
  obtain es1 where es1: "trace s1 = trace s @ es1"
      "outputs es1 = frame_outputs (reset_pin s) (buffer s1)"
    using u(8) Cons.prems(2) by auto
  from Cons.IH [OF s1(2) u(1) u(6)] obtain es2 bufs where
    rest: "initialized s'" "reset_pin s' = reset_pin s1" "busy_pin s' = busy_pin s1"
      "length (buffer s') = ALLSCREEN_BYTES" "trace s' = trace s1 @ es2"
      "length bufs = length opss"
      "outputs es2 = concat (map (frame_outputs (reset_pin s1)) bufs)"
    by auto
  have "trace s' = trace s @ (es1 @ es2)"
    by (simp add: rest(5) es1(1))
  moreover have "length (buffer s1 # bufs) = length (ops # opss)"
    by (simp add: rest(6))
  moreover have "outputs (es1 @ es2) =
      concat (map (frame_outputs (reset_pin s)) (buffer s1 # bufs))"
    by (simp add: es1(2) rest(7) u(2))
  ultimately have "\<exists>es bufs. trace s' = trace s @ es \<and> length bufs = length (ops # opss) \<and>
            outputs es = concat (map (frame_outputs (reset_pin s)) bufs)"
    by blast
  then show ?case
    using rest(1-4) u(2,3) by simp
qed

lemma updates_succeed:
  assumes "initialized s \<or> busy_pin s" "length (buffer s) = ALLSCREEN_BYTES"
  shows "\<exists>s'. updates opss s = Inr s'"
  using assms
proof (induction opss arbitrary: s)
  case Nil
  then show ?case by simp
next
  case (Cons ops opss)
  obtain s1 where s1: "update ops s = Inr s1"
    using update_succeeds [OF Cons.prems] by blast
  note u = update_Inr [OF s1 Cons.prems(2)]
  obtain s' where "updates opss s1 = Inr s'"
    using Cons.IH [of s1] u(1) u(6) by blast
  then show ?case by (simp add: s1)
qed

lemma updates_length:
  assumes "updates opss s = Inr s'" "length (buffer s) = ALLSCREEN_BYTES"
  shows "length (buffer s') = ALLSCREEN_BYTES"
  using assms
proof (induction opss arbitrary: s)
  case Nil
  then show ?case by simp
next
  case (Cons ops opss)
  from Cons.prems(1) obtain s1 where s1: "update ops s = Inr s1" "updates opss s1 = Inr s'"
    by (auto split: sum.splits)
  show ?case
    using Cons.IH [OF s1(2)] update_Inr(6) [OF s1(1) Cons.prems(2)] by simp
qed

lemma updates_from_setup:
  assumes "updates (ops # opss) (setup_display d) = Inr s'"
  shows "\<exists>es bufs. trace s' = trace (setup_display d) @ es \<and>
           length bufs = Suc (length opss) \<and>
           outputs es = first_outputs (reset_pin d) @
                        concat (map (frame_outputs (reset_pin d)) bufs)"
    and "initialized s'"
proof -
  from assms obtain s1 where s1: "update ops (setup_display d) = Inr s1"
      "updates opss s1 = Inr s'"
    by (auto split: sum.splits)
  have len: "length (buffer (setup_display d)) = ALLSCREEN_BYTES"
    by simp
  note u = update_Inr [OF s1(1) len]
  obtain es1 where es1: "trace s1 = trace (setup_display d) @ es1"
      "outputs es1 = first_outputs (reset_pin d) @ frame_outputs (reset_pin d) (buffer s1)"
    using u(8) by auto
  from updates_initialized [OF s1(2) u(1) u(6)] obtain es2 bufs where
    rest: "initialized s'" "trace s' = trace s1 @ es2" "length bufs = length opss"
      "outputs es2 = concat (map (frame_outputs (reset_pin s1)) bufs)"
    by auto
  show "initialized s'" by (rule rest(1))
  have "trace s' = trace (setup_display d) @ (es1 @ es2)"
    by (simp add: rest(2) es1(1))
  moreover have "length (buffer s1 # bufs) = Suc (length opss)"
    by (simp add: rest(3))
  moreover have "outputs (es1 @ es2) = first_outputs (reset_pin d) @
      concat (map (frame_outputs (reset_pin d)) (buffer s1 # bufs))"
    using u(2) by (simp add: es1(2) rest(4))
  ultimately show "\<exists>es bufs. trace s' = trace (setup_display d) @ es \<and>
           length bufs = Suc (length opss) \<and>
           outputs es = first_outputs (reset_pin d) @
                        concat (map (frame_outputs (reset_pin d)) bufs)"
    by blast
qed

lemma setup_display_bus_bytes:
  "bus_bytes dc (outputs (trace (setup_display (new_driver r b f t))) @ rest) =
   bus_bytes False rest"
  by (simp add: setup_display_outputs)

lemma first_outputs_bus_bytes:
  "bus_bytes dc (first_outputs r @ rest) =
     [(False, 0x12),
      (False, 0x01), (True, 0x27), (True, 0x01), (True, 0x00),
      (False, 0x11), (True, 0x03),
      (False, 0x44), (True, 0x00), (True, 0x0F),
      (False, 0x45), (True, 0x00), (True, 0x00), (True, 0x27), (True, 0x01),
      (False, 0x3C), (True, 0x05),
      (False, 0x18), (True, 0x80),
      (False, 0x4E), (True, 0x00),
      (False, 0x4F), (True, 0x00), (True, 0x00)] @ bus_bytes True rest"
  using config_bus_bytes [of dc rest] by (simp add: first_outputs_def config_bus_bytes)

lemma lifetime_bus_pairs:
  assumes "updates (ops # opss) (setup_display (new_driver r b f t)) = Inr s'"
  shows "\<exists>bufs. length bufs = Suc (length opss) \<and>
           bus_pairs (trace s') = one_time_config @ concat (map frame_pairs bufs)"
proof -
  let ?s0 = "setup_display (new_driver r b f t)"
  obtain es bufs where es: "trace s' = trace ?s0 @ es" "length bufs = Suc (length opss)"
      "outputs es = first_outputs r @ concat (map (frame_outputs r) bufs)"
    using updates_from_setup(1) [OF assms] by auto
  let ?frames = "concat (map (\<lambda>buf. bus_bytes False (frame_bus_events buf)) bufs)"
  have "bus_bytes False (trace s') = bus_bytes False (outputs (trace s'))"
    by (simp add: bus_bytes_outputs)
  also have "\<dots> = bus_bytes False (outputs (trace ?s0) @ first_outputs r @
      concat (map (frame_outputs r) bufs))"
    by (simp add: es(1) es(3))
  also have "\<dots> = bus_bytes False (first_outputs r @ concat (map (frame_outputs r) bufs))"
    by (rule setup_display_bus_bytes)
  finally have bytes: "bus_bytes False (trace s') =
     [(False, 0x12),
      (False, 0x01), (True, 0x27), (True, 0x01), (True, 0x00),
      (False, 0x11), (True, 0x03),
      (False, 0x44), (True, 0x00), (True, 0x0F),
      (False, 0x45), (True, 0x00), (True, 0x00), (True, 0x27), (True, 0x01),
      (False, 0x3C), (True, 0x05),
      (False, 0x18), (True, 0x80),
      (False, 0x4E), (True, 0x00),
      (False, 0x4F), (True, 0x00), (True, 0x00)] @ ?frames"
    by (simp only: first_outputs_bus_bytes frames_bus_bytes)
  have "bus_pairs (trace s') = one_time_config @ concat (map frame_pairs bufs)"
    unfolding bus_pairs_def bytes
    by (simp only: group_pairs_append [OF frames_bytes_start] config_pairs frames_pairs)
  then show ?thesis using es(2) by blast
qed

subsection \<open>Waiting for the busy line\<close>

lemma elapsed_step:
  assumes "unat (c - start) \<le> 10010"
  shows "unat ((c :: u32) + 10 - start) = unat (c - start) + 10"
proof -
  have "unat ((c - start) + 10) = unat (c - start) + 10"
    using assms by (simp add: unat_word_ariths)
  moreover have "c + 10 - start = (c - start) + 10"
    by simp
  ultimately show ?thesis by (simp only:)
qed

lemma timeout_iff: "(10000 < (w :: u32)) \<longleftrightarrow> 10000 < unat w"
  by (simp add: word_less_nat_alt)

lemma wait_loop_stuck:
  assumes "\<forall>k. busy_in s k" "unat (clock s - start) + 10 * n = 10010"
  shows "wait_until_idle_loop start s =
     s\<lparr>busy_reads := busy_reads s + Suc n,
       clock := clock s + of_nat (10 * n),
       trace := trace s @ concat (replicate n [BusyRead True, Delay 10, FeedWdt]) @
         [BusyRead True,
          Log LOG_ERROR ''Timeout waiting for display (busy pin stuck HIGH)'']\<rparr>"
  using assms
proof (induction n arbitrary: s)
  case 0
  then have "10000 < clock s - start"
    by (simp add: timeout_iff)
  then show ?case
    using "0.prems"(1)
    by (subst wait_until_idle_loop.simps)
      (simp add: busy_digital_read_def millis_def emit_def)
next
  case (Suc n)
  let ?s' = "feed_wdt (delay 10 (snd (busy_digital_read s)))"
  have small: "unat (clock s - start) \<le> 10000"
    using Suc.prems(2) by simp
  then have no_timeout: "\<not> 10000 < clock s - start"
    by (simp add: timeout_iff)
  have clock': "clock ?s' = clock s + 10"
    by (simp add: feed_wdt_def delay_def busy_digital_read_def emit_def)
  have "unat (clock ?s' - start) = unat (clock s - start) + 10"
    using elapsed_step [of "clock s" start] small by (simp add: clock')
  then have e: "unat (clock ?s' - start) + 10 * n = 10010"
    using Suc.prems(2) by simp
  have b: "\<forall>k. busy_in ?s' k"
    using Suc.prems(1) by (simp add: feed_wdt_def delay_def busy_digital_read_def emit_def)
  have "wait_until_idle_loop start s = wait_until_idle_loop start ?s'"
    using Suc.prems(1) no_timeout
    by (subst wait_until_idle_loop.simps)
      (simp add: busy_digital_read_def millis_def emit_def)
  also note Suc.IH [OF b e]
  finally show ?case
    using Suc.prems(1)
    by (simp add: feed_wdt_def delay_def busy_digital_read_def emit_def algebra_simps)
qed

lemma wait_until_idle_stuck:
  assumes "busy_pin s" "\<forall>k. busy_in s k"
  shows "capture wait_until_idle s =
           BusyRead True # concat (replicate 1001 [BusyRead True, Delay 10, FeedWdt]) @
           [BusyRead True,
            Log LOG_ERROR ''Timeout waiting for display (busy pin stuck HIGH)'']"
    and "clock (wait_until_idle s) = clock s + 10010"
proof -
  let ?s1 = "snd (busy_digital_read s)"
  have b: "\<forall>k. busy_in ?s1 k"
    using assms(2) by (simp add: busy_digital_read_def emit_def)
  have e: "unat (clock ?s1 - millis s) + 10 * 1001 = 10010"
    by (simp add: busy_digital_read_def emit_def millis_def)
  note loop = wait_loop_stuck [OF b e]
  have w: "wait_until_idle s = wait_until_idle_loop (millis s) ?s1"
    using assms(1) by (simp add: wait_until_idle_def)
  have "trace (wait_until_idle s) = trace s @
           BusyRead True # concat (replicate 1001 [BusyRead True, Delay 10, FeedWdt]) @
           [BusyRead True,
            Log LOG_ERROR ''Timeout waiting for display (busy pin stuck HIGH)'']"
    unfolding w loop using assms(2)
    by (simp add: busy_digital_read_def emit_def del: replicate.simps)
  then show "capture wait_until_idle s =
           BusyRead True # concat (replicate 1001 [BusyRead True, Delay 10, FeedWdt]) @
           [BusyRead True,
            Log LOG_ERROR ''Timeout waiting for display (busy pin stuck HIGH)'']"
    by (rule capture_eqI)
  show "clock (wait_until_idle s) = clock s + 10010"
    unfolding w loop by (simp add: busy_digital_read_def emit_def)
qed

lemma wait_loop_bound:
  assumes "unat (clock s - start) \<le> 10010"
  shows "unat (clock (wait_until_idle_loop start s) - start) \<le> 10020"
  using assms
proof (induction start s rule: wait_until_idle_loop.induct)
  case (1 start s)
  let ?s1 = "snd (busy_digital_read s)"
  have c1: "clock ?s1 = clock s"
    by (simp add: busy_digital_read_def emit_def)
  show ?case
  proof (cases "fst (busy_digital_read s)")
    case False
    then have "wait_until_idle_loop start s = delay 10 ?s1"
      by (subst wait_until_idle_loop.simps) simp
    then show ?thesis
      using elapsed_step [OF "1.prems"] "1.prems" by (simp add: delay_def emit_def c1)
  next
    case busy: True
    show ?thesis
    proof (cases "10000 < millis ?s1 - start")
      case True
      then have "wait_until_idle_loop start s =
          emit (Log LOG_ERROR ''Timeout waiting for display (busy pin stuck HIGH)'') ?s1"
        using busy by (subst wait_until_idle_loop.simps) simp
      then show ?thesis
        using "1.prems" by (simp add: emit_def c1)
    next
      case False
      let ?s' = "feed_wdt (delay 10 ?s1)"
      have small: "unat (clock s - start) \<le> 10000"
        using False by (simp add: millis_def c1 timeout_iff)
      have "unat (clock ?s' - start) = unat (clock s - start) + 10"
        using elapsed_step [OF "1.prems"] by (simp add: feed_wdt_def delay_def emit_def c1)
      then have "unat (clock ?s' - start) \<le> 10010"
        using small by simp
      then have "unat (clock (wait_until_idle_loop start ?s') - start) \<le> 10020"
        by (rule "1.IH" [OF busy False])
      moreover have "wait_until_idle_loop start s = wait_until_idle_loop start ?s'"
        using busy False by (subst wait_until_idle_loop.simps) simp
      ultimately show ?thesis by simp
    qed
  qed
qed

lemma wait_until_idle_bound: "unat (clock (wait_until_idle s) - clock s) \<le> 10020"
proof (cases "busy_pin s")
  case False
  then show ?thesis
    by (simp add: wait_until_idle_def delay_def emit_def)
next
  case True
  have "unat (clock (snd (busy_digital_read s)) - millis s) \<le> 10010"
    by (simp add: busy_digital_read_def emit_def millis_def)
  from wait_loop_bound [OF this] show ?thesis
    using True by (simp add: wait_until_idle_def millis_def)
qed

lemma wait_until_idle_no_pin:
  assumes "\<not> busy_pin s"
  shows "capture wait_until_idle s = [Delay 100]"
    and "clock (wait_until_idle s) = clock s + 100"
  using assms by (simp_all add: wait_until_idle_def capture_def delay_def emit_def)


section \<open>The write phase, the handshake and the lifecycle\<close>

lemma update_bus_pairs:
  assumes "update ops s = Inr s'" "length (buffer s) = ALLSCREEN_BYTES"
  shows "\<exists>es. trace s' = trace s @ es \<and>
           bus_pairs es =
             (if initialized s then [] else one_time_config) @ frame_pairs (buffer s')"
proof -
  obtain es where es: "trace s' = trace s @ es"
      "outputs es = (if initialized s then [] else first_outputs (reset_pin s)) @
                    frame_outputs (reset_pin s) (buffer s')"
    using update_Inr(8) [OF assms] by auto
  let ?frame = "concat (map (\<lambda>buf. bus_bytes False (frame_bus_events buf)) [buffer s'])"
  have f: "bus_bytes dc (frame_outputs (reset_pin s) (buffer s')) = ?frame" for dc
    using frames_bus_bytes [of dc "reset_pin s" "[buffer s']"] by simp
  have fp: "group_pairs ?frame = frame_pairs (buffer s')"
    using frames_pairs [of "[buffer s']"] by simp
  have "bus_bytes False es = bus_bytes False (outputs es)"
    by (simp add: bus_bytes_outputs)
  then have "group_pairs (bus_bytes False es) =
      (if initialized s then [] else one_time_config) @ frame_pairs (buffer s')"
  proof (cases "initialized s")
    case True
    assume "bus_bytes False es = bus_bytes False (outputs es)"
    then have "bus_bytes False es = ?frame"
      using True by (simp only: es(2) if_True append_Nil f)
    then show ?thesis
      using True fp by (simp only: if_True append_Nil)
  next
    case False
    assume "bus_bytes False es = bus_bytes False (outputs es)"
    then have "bus_bytes False es =
     [(False, 0x12),
      (False, 0x01), (True, 0x27), (True, 0x01), (True, 0x00),
      (False, 0x11), (True, 0x03),
      (False, 0x44), (True, 0x00), (True, 0x0F),
      (False, 0x45), (True, 0x00), (True, 0x00), (True, 0x27), (True, 0x01),
      (False, 0x3C), (True, 0x05),
      (False, 0x18), (True, 0x80),
      (False, 0x4E), (True, 0x00),
      (False, 0x4F), (True, 0x00), (True, 0x00)] @ ?frame"
      using False by (simp only: es(2) if_False first_outputs_bus_bytes f)
    then show ?thesis
      using False
      by (simp only: group_pairs_append [OF frames_bytes_start] config_pairs fp if_False)
  qed
  then show ?thesis
    using es(1) by (auto simp: bus_pairs_def)
qed

text \<open>
  Claim C1. In every write phase on a buffer of the full length, the bus carries, as
  (opcode, payload) pairs in this order: the condensed configuration, then the command
  \<open>0x24\<close> with exactly \<open>ALLSCREEN_BYTES = 4736\<close> payload bytes, the \<open>i\<close>-th being the
  bitwise complement of the \<open>i\<close>-th buffer byte, then the counter reset, then the command
  \<open>0x26\<close> with the same number of \<open>0x00\<close> bytes, then the refresh trigger. Every call
  of \<^verbatim>\<open>update()\<close> that returns has put this sequence on the bus for the buffer as the
  drawing code left it, after the one-time configuration if this was the first call.
\<close>

theorem write_phase_bit_planes:
  assumes "length (buffer s) = ALLSCREEN_BYTES"
  shows "bus_pairs (capture display_frame s) =
           [(0x12, []),
            (0x01, [0x27, 0x01, 0x00]),
            (0x11, [0x03]),
            (0x44, [0x00, 0x0F]),
            (0x45, [0x00, 0x00, 0x27, 0x01]),
            (0x4E, [0x00]),
            (0x4F, [0x00, 0x00]),
            (0x24, map NOT (buffer s)),
            (0x4E, [0x00]),
            (0x4F, [0x00, 0x00]),
            (0x26, replicate ALLSCREEN_BYTES 0x00),
            (0x22, [0xF7]),
            (0x20, [])] \<and>
         bus_pairs (capture display_frame s) = frame_pairs (buffer s) \<and>
         length (map NOT (buffer s)) = ALLSCREEN_BYTES \<and>
         (\<forall>i < ALLSCREEN_BYTES. map NOT (buffer s) ! i = NOT (buffer s ! i)) \<and>
         length (replicate ALLSCREEN_BYTES (0x00 :: u8)) = ALLSCREEN_BYTES \<and>
         ALLSCREEN_BYTES = (WIDTH * HEIGHT) div 8 \<and> ALLSCREEN_BYTES = 4736 \<and>
         (update ops s = Inr s' \<longrightarrow>
            draw_all ops (buffer s) = Inr (buffer s') \<and>
            (\<exists>es. trace s' = trace s @ es \<and>
               bus_pairs es =
                 (if initialized s then [] else one_time_config) @ frame_pairs (buffer s')))"
proof -
  have "update ops s = Inr s' \<longrightarrow>
            draw_all ops (buffer s) = Inr (buffer s') \<and>
            (\<exists>es. trace s' = trace s @ es \<and>
               bus_pairs es =
                 (if initialized s then [] else one_time_config) @ frame_pairs (buffer s'))"
    using update_Inr(5) [of ops s s'] update_bus_pairs [of ops s s'] assms by blast
  moreover have "ALLSCREEN_BYTES = (WIDTH * HEIGHT) div 8"
    by (simp add: ALLSCREEN_BYTES_def)
  moreover note display_frame_pairs [OF assms] ALLSCREEN_BYTES_eq
  ultimately show ?thesis
    using assms by (simp add: frame_pairs_def del: replicate.simps)
qed

theorem write_phase_bit_planes_witness:
  "bus_pairs (capture display_frame (setup_display (new_driver True True never_busy 0))) =
           [(0x12, []),
            (0x01, [0x27, 0x01, 0x00]),
            (0x11, [0x03]),
            (0x44, [0x00, 0x0F]),
            (0x45, [0x00, 0x00, 0x27, 0x01]),
            (0x4E, [0x00]),
            (0x4F, [0x00, 0x00]),
            (0x24, replicate ALLSCREEN_BYTES 0x00),
            (0x4E, [0x00]),
            (0x4F, [0x00, 0x00]),
            (0x26, replicate ALLSCREEN_BYTES 0x00),
            (0x22, [0xF7]),
            (0x20, [])] \<and>
   length (buffer (setup_display (new_driver True True never_busy 0))) = ALLSCREEN_BYTES \<and>
   (\<exists>es. trace (projr (update [(0, 0, False)]
                  (setup_display (new_driver True True never_busy 0)))) =
           trace (setup_display (new_driver True True never_busy 0)) @ es \<and>
         bus_pairs es =
           one_time_config @
           frame_pairs (buffer (projr (update [(0, 0, False)]
                  (setup_display (new_driver True True never_busy 0))))))"
proof -
  let ?s0 = "setup_display (new_driver True True never_busy 0)"
  obtain s' where s': "update [(0, 0, False)] ?s0 = Inr s'"
    using update_succeeds [of ?s0 "[(0, 0, False)]"] by auto
  show ?thesis
    using write_phase_bit_planes [of ?s0 "[(0, 0, False)]" s'] s'
    by simp
qed

text \<open>
  Claim C6. \<^verbatim>\<open>wait_until_idle_\<close> returns for every behaviour of the busy input, at most
  10020 ms of clock time after it was called. With no busy line it sleeps once, for
  100 ms. With a busy line that never reads idle it polls every 10 ms, stops at the first
  poll whose elapsed time exceeds 10000 ms (the 1002nd poll of the loop, at 10010 ms),
  logs the timeout and returns.
\<close>

theorem wait_until_idle_terminates:
  "(\<not> busy_pin s \<longrightarrow>
      capture wait_until_idle s = [Delay 100] \<and>
      clock (wait_until_idle s) = clock s + 100) \<and>
   (busy_pin s \<and> (\<forall>k. busy_in s k) \<longrightarrow>
      capture wait_until_idle s =
        BusyRead True # concat (replicate 1001 [BusyRead True, Delay 10, FeedWdt]) @
        [BusyRead True, Log LOG_ERROR ''Timeout waiting for display (busy pin stuck HIGH)''] \<and>
      clock (wait_until_idle s) = clock s + 10010) \<and>
   unat (clock (wait_until_idle s) - clock s) \<le> 10020"
  using wait_until_idle_no_pin [of s] wait_until_idle_stuck [of s] wait_until_idle_bound [of s]
  by blast

theorem wait_until_idle_terminates_witness:
  "capture wait_until_idle (setup_display (new_driver True False never_busy 0)) = [Delay 100] \<and>
   capture wait_until_idle (setup_display (new_driver True True stuck_busy 0)) =
        BusyRead True # concat (replicate 1001 [BusyRead True, Delay 10, FeedWdt]) @
        [BusyRead True, Log LOG_ERROR ''Timeout waiting for display (busy pin stuck HIGH)''] \<and>
   clock (wait_until_idle (setup_display (new_driver True True stuck_busy 0))) =
     clock (setup_display (new_driver True True stuck_busy 0)) + 10010"
proof -
  have "\<forall>k. busy_in (setup_display (new_driver True True stuck_busy 0)) k"
    by (simp add: stuck_busy_def)
  then show ?thesis
    using wait_until_idle_terminates [of "setup_display (new_driver True False never_busy 0)"]
      wait_until_idle_terminates [of "setup_display (new_driver True True stuck_busy 0)"]
    by simp
qed

text \<open>
  Claim C7, as the code has it. With a reset line, every write phase starts with exactly
  two writes to the line, low and then high, each followed by a 10 ms delay; the phase
  writes the line nowhere else. The line is high when the phase starts: over a driver's
  life the writes are high (setup), high, low, high (one-time configuration), then low,
  high for each update. The three-write pulse is that of \<^verbatim>\<open>hw_reset_\<close>, which the
  write phase does not call.
\<close>

theorem write_phase_reset_pulse:
  "(reset_pin s \<longrightarrow>
      take 4 (capture display_frame s) =
        [ResetWrite False, Delay 10, ResetWrite True, Delay 10] \<and>
      reset_writes (capture display_frame s) = [False, True]) \<and>
   (\<exists>s'. updates (ops # opss) (setup_display (new_driver True True busy t0)) = Inr s' \<and>
      reset_writes (trace s') =
        [True] @ [True, False, True] @ concat (replicate (Suc (length opss)) [False, True]))"
proof (intro conjI impI)
  assume r: "reset_pin s"
  show "take 4 (capture display_frame s) =
        [ResetWrite False, Delay 10, ResetWrite True, Delay 10]"
    by (rule display_frame_pulse [OF r])
  show "reset_writes (capture display_frame s) = [False, True]"
    using r by (simp add: display_frame_reset_writes)
next
  let ?s0 = "setup_display (new_driver True True busy t0)"
  obtain s' where s': "updates (ops # opss) ?s0 = Inr s'"
    using updates_succeed [of ?s0 "ops # opss"] by auto
  obtain es bufs where es: "trace s' = trace ?s0 @ es" "length bufs = Suc (length opss)"
      "outputs es = first_outputs True @ concat (map (frame_outputs True) bufs)"
    using updates_from_setup(1) [OF s'] by auto
  have frames: "reset_writes (concat (map (frame_outputs True) bs)) =
      concat (replicate (length bs) [False, True])" for bs
    by (induction bs) (simp_all add: reset_writes_append frame_outputs_def)
  have "reset_writes (trace s') = reset_writes (outputs (trace s'))"
    by (simp add: reset_writes_outputs)
  also have "\<dots> = [True] @ [True, False, True] @ concat (replicate (length bufs) [False, True])"
    by (simp add: es(1) es(3) setup_display_outputs reset_writes_append first_outputs_def frames
        del: replicate.simps)
  finally show "\<exists>s'. updates (ops # opss) ?s0 = Inr s' \<and>
      reset_writes (trace s') =
        [True] @ [True, False, True] @ concat (replicate (Suc (length opss)) [False, True])"
    using s' es(2) by auto
qed

theorem write_phase_reset_pulse_witness:
  "take 4 (capture display_frame (setup_display (new_driver True True never_busy 0))) =
        [ResetWrite False, Delay 10, ResetWrite True, Delay 10] \<and>
   reset_writes (capture display_frame (setup_display (new_driver True True never_busy 0))) =
        [False, True]"
  using write_phase_reset_pulse [of "setup_display (new_driver True True never_busy 0)"]
  by simp

theorem write_phase_reset_pulse_counterexample:
  "reset_writes (capture display_frame (setup_display (new_driver True True never_busy 0))) =
     [False, True] \<and>
   reset_writes (capture display_frame (setup_display (new_driver True True never_busy 0))) \<noteq>
     [True, False, True] \<and>
   reset_writes (capture hw_reset (setup_display (new_driver True True never_busy 0))) =
     [True, False, True]"
  by (simp add: display_frame_reset_writes hw_reset_capture)

text \<open>
  Claim C8, as the code has it. After \<^verbatim>\<open>setup()\<close> the frame buffer has exactly
  \<open>ALLSCREEN_BYTES = 4736\<close> bytes and every byte is \<open>0xFF\<close>: every bit is set, which
  under the convention "set bit = foreground" is all foreground. No pixel write and no
  update changes the length of the buffer.
\<close>

theorem setup_buffer:
  "buffer (setup_display d) = replicate ALLSCREEN_BYTES 0xFF \<and>
   length (buffer (setup_display d)) = ALLSCREEN_BYTES \<and>
   ALLSCREEN_BYTES = (WIDTH * HEIGHT) div 8 \<and> ALLSCREEN_BYTES = 4736 \<and>
   (updates opss (setup_display d) = Inr s' \<longrightarrow> length (buffer s') = ALLSCREEN_BYTES) \<and>
   (draw_absolute_pixel_internal x y on buf = Inr buf' \<longrightarrow> length buf' = length buf)"
  using updates_length [of opss "setup_display d" s'] draw_length [of x y on buf buf']
  by (simp add: ALLSCREEN_BYTES_eq [symmetric]) (simp add: ALLSCREEN_BYTES_def WIDTH_def HEIGHT_def)

theorem setup_buffer_witness:
  "length (buffer (projr (updates [[(0, 0, False)], []]
      (setup_display (new_driver True True never_busy 0))))) = ALLSCREEN_BYTES \<and>
   length (projr (draw_absolute_pixel_internal 0 0 False (replicate ALLSCREEN_BYTES 0xFF))) =
     length (replicate ALLSCREEN_BYTES (0xFF :: u8))"
proof -
  let ?s0 = "setup_display (new_driver True True never_busy 0)"
  let ?buf = "replicate ALLSCREEN_BYTES (0xFF :: u8)"
  obtain s' where s': "updates [[(0, 0, False)], []] ?s0 = Inr s'"
    using updates_succeed [of ?s0 "[[(0, 0, False)], []]"] by auto
  obtain buf' where buf': "draw_absolute_pixel_internal 0 0 False ?buf = Inr buf'"
    using draw_total [of ?buf 0 0 False] by auto
  show ?thesis
    using setup_buffer [of "new_driver True True never_busy 0" "[[(0, 0, False)], []]" s'
        0 0 False ?buf buf'] s' buf'
    by simp
qed

theorem setup_buffer_counterexample:
  "buffer (setup_display (new_driver True True never_busy 0)) ! 0 = 0xFF \<and>
   buffer (setup_display (new_driver True True never_busy 0)) ! 0 \<noteq> 0x00 \<and>
   pixel_at 0 0 (buffer (setup_display (new_driver True True never_busy 0)))"
proof -
  have "0 < ALLSCREEN_BYTES"
    by (simp add: ALLSCREEN_BYTES_eq)
  then show ?thesis
    by (simp add: pixel_at_def pixel_index_def pixel_mask_def WIDTH_def)
qed

lemma init_display_pairs: "bus_pairs (capture init_display s) = one_time_config"
proof -
  have "bus_bytes False (capture init_display s) =
        bus_bytes False (outputs (capture init_display s))"
    by (simp add: bus_bytes_outputs)
  also have "\<dots> = bus_bytes False (config_bus_events @ [])"
    by (simp add: init_display_outputs)
  finally show ?thesis
    unfolding bus_pairs_def config_bus_bytes by (simp add: one_time_config_def)
qed

text \<open>
  Claim C2. The one-time configuration \<^verbatim>\<open>init_display_\<close> puts on the bus, as
  (opcode, payload) pairs in this order: \<open>0x12\<close>; \<open>0x01\<close> with \<open>0x27, 0x01, 0x00\<close>;
  \<open>0x11\<close> with \<open>0x03\<close>; \<open>0x44\<close> with \<open>0x00, 0x0F\<close>; \<open>0x45\<close> with
  \<open>0x00, 0x00, 0x27, 0x01\<close>; \<open>0x3C\<close> with \<open>0x05\<close>; \<open>0x18\<close> with \<open>0x80\<close>; \<open>0x4E\<close> with
  \<open>0x00\<close>; \<open>0x4F\<close> with \<open>0x00, 0x00\<close>. However many updates follow the first one (on a
  driver with a busy line), the bus traffic of the driver's whole life is this sequence,
  once, followed by one write-and-refresh sequence per update: the first nine pairs
  captured never change.
\<close>

theorem one_time_configuration:
  "bus_pairs (capture init_display s) = one_time_config \<and>
   one_time_config =
     [(0x12, []),
      (0x01, [0x27, 0x01, 0x00]),
      (0x11, [0x03]),
      (0x44, [0x00, 0x0F]),
      (0x45, [0x00, 0x00, 0x27, 0x01]),
      (0x3C, [0x05]),
      (0x18, [0x80]),
      (0x4E, [0x00]),
      (0x4F, [0x00, 0x00])] \<and>
   (\<exists>s' bufs. updates (ops # opss) (setup_display (new_driver r True busy t0)) = Inr s' \<and>
      length bufs = Suc (length opss) \<and>
      bus_pairs (trace s') = one_time_config @ concat (map frame_pairs bufs) \<and>
      take 9 (bus_pairs (trace s')) = one_time_config)"
proof (intro conjI)
  show "bus_pairs (capture init_display s) = one_time_config"
    by (rule init_display_pairs)
  show "one_time_config =
     [(0x12, []),
      (0x01, [0x27, 0x01, 0x00]),
      (0x11, [0x03]),
      (0x44, [0x00, 0x0F]),
      (0x45, [0x00, 0x00, 0x27, 0x01]),
      (0x3C, [0x05]),
      (0x18, [0x80]),
      (0x4E, [0x00]),
      (0x4F, [0x00, 0x00])]"
    by (simp add: one_time_config_def)
  let ?s0 = "setup_display (new_driver r True busy t0)"
  obtain s' where s': "updates (ops # opss) ?s0 = Inr s'"
    using updates_succeed [of ?s0 "ops # opss"] by auto
  obtain bufs where bufs: "length bufs = Suc (length opss)"
      "bus_pairs (trace s') = one_time_config @ concat (map frame_pairs bufs)"
    using lifetime_bus_pairs [OF s'] by auto
  have "length one_time_config = 9"
    by (simp add: one_time_config_def)
  then have "take 9 (bus_pairs (trace s')) = one_time_config"
    by (simp add: bufs(2))
  then show "\<exists>s' bufs. updates (ops # opss) ?s0 = Inr s' \<and>
      length bufs = Suc (length opss) \<and>
      bus_pairs (trace s') = one_time_config @ concat (map frame_pairs bufs) \<and>
      take 9 (bus_pairs (trace s')) = one_time_config"
    using s' bufs by blast
qed

theorem one_time_configuration_witness:
  "bus_pairs (capture init_display (setup_display (new_driver True True stuck_busy 0))) =
     [(0x12, []),
      (0x01, [0x27, 0x01, 0x00]),
      (0x11, [0x03]),
      (0x44, [0x00, 0x0F]),
      (0x45, [0x00, 0x00, 0x27, 0x01]),
      (0x3C, [0x05]),
      (0x18, [0x80]),
      (0x4E, [0x00]),
      (0x4F, [0x00, 0x00])] \<and>
   (\<exists>s'. updates [[], [(3, 4, True)], []] (setup_display (new_driver True True stuck_busy 0))
            = Inr s' \<and>
      take 9 (bus_pairs (trace s')) =
     [(0x12, []),
      (0x01, [0x27, 0x01, 0x00]),
      (0x11, [0x03]),
      (0x44, [0x00, 0x0F]),
      (0x45, [0x00, 0x00, 0x27, 0x01]),
      (0x3C, [0x05]),
      (0x18, [0x80]),
      (0x4E, [0x00]),
      (0x4F, [0x00, 0x00])])"
  using one_time_configuration [of "setup_display (new_driver True True stuck_busy 0)"
          "[]" "[[(3, 4, True)], []]" True stuck_busy 0]
  by auto

text \<open>
  Claim C3 at the failing input. On a driver with no busy line, the first \<^verbatim>\<open>update()\<close>
  after \<^verbatim>\<open>setup()\<close> dereferences the null \<^verbatim>\<open>busy_pin_\<close> in its pin swap test, before
  the one-time configuration runs and before the flag is set.
\<close>

theorem first_update_without_busy_line:
  "initialized (setup_display (new_driver True False never_busy 0)) = False \<and>
   update [] (setup_display (new_driver True False never_busy 0)) = Inl NullPointerDereference"
  by (simp add: update_def first_update_init_def)

text \<open>
  With a busy line the lifecycle is as documented: the flag is false after
  \<^verbatim>\<open>setup()\<close>; every update succeeds and leaves it true; what the driver does to the
  hardware over its life is the setup, then the pin swap test and the one-time
  configuration once, then one write-and-refresh phase per update.
\<close>

theorem configured_flag_with_busy_line:
  "initialized (setup_display d) = False \<and>
   (\<exists>s' bufs. updates (ops # opss) (setup_display (new_driver r True busy t0)) = Inr s' \<and>
      initialized s' \<and>
      length bufs = Suc (length opss) \<and>
      outputs (trace s') =
        outputs (trace (setup_display (new_driver r True busy t0))) @
        first_outputs r @ concat (map (frame_outputs r) bufs))"
proof -
  let ?s0 = "setup_display (new_driver r True busy t0)"
  obtain s' where s': "updates (ops # opss) ?s0 = Inr s'"
    using updates_succeed [of ?s0 "ops # opss"] by auto
  obtain es bufs where es: "trace s' = trace ?s0 @ es" "length bufs = Suc (length opss)"
      "outputs es = first_outputs r @ concat (map (frame_outputs r) bufs)"
    using updates_from_setup(1) [OF s'] by auto
  have "outputs (trace s') = outputs (trace ?s0) @
        first_outputs r @ concat (map (frame_outputs r) bufs)"
    by (simp add: es(1) es(3))
  then show ?thesis
    using s' es(2) updates_from_setup(2) [OF s'] by auto
qed


end
